theory Spec2Isabelle
  imports Main "HOL-Library.Word"
begin

section \<open>Nodes, list objects and the store\<close>

text \<open>
  The container is a pointer structure: \<open>DListNode\<close> objects linked through
  \<open>_next\<close> (a \<open>shared_ptr\<close>) and \<open>_prev\<close> (a \<open>weak_ptr\<close>), and \<open>DList\<close>
  objects holding \<open>_head\<close>, \<open>_tail\<close> and \<open>_size\<close>. Several operations take a second
  list by reference and compare its address with \<open>this\<close>, so both kinds of object live
  in an explicit store and every member function takes the identity of \<open>this\<close>.

  \<^item> A node pointer is \<open>addr option\<close>, \<open>None\<close> being \<open>nullptr\<close>.
  \<^item> \<open>make_shared\<close> hands out the address \<open>st_fresh\<close> and increments it; addresses
    are never reused. A node that loses its last owner is destroyed in the source; in
    the model it stays behind, unreachable from every list.
  \<^item> The platform is LP64: \<open>long\<close> and \<open>size_t\<close> have 64 bits. \<open>long\<close> is modelled
    by \<open>int\<close>: the arithmetic of the source on \<open>long\<close> values is \<open>position + _size\<close>
    with \<open>position < 0 \<le> _size\<close>, \<open>-_size\<close>, and \<open>_size\<close> plus or minus one, and
    none of them leaves the range of \<open>long\<close> for a list that fits in memory.
    \<open>size_t\<close> is \<open>64 word\<close> where its wrap-around is visible, in \<open>index\<close>, whose
    \<open>start\<close> is converted to \<open>long\<close> by two's complement (\<open>sint\<close>).
  \<^item> Dereferencing \<open>nullptr\<close> is undefined behaviour in the source; in the model it
    is the error \<open>NullDeref\<close>. A non-null pointer to an address that holds no node
    cannot exist in the source; the model answers it with the error \<open>Dangling\<close>.
\<close>

type_synonym addr = nat

datatype error = NullDeref | Dangling

record 'a DListNode =
  node_item :: 'a
  node_next :: "addr option"
  node_prev :: "addr option"

record DList =
  dl_head :: "addr option"
  dl_tail :: "addr option"
  dl_size :: int

record 'a store =
  st_nodes :: "addr \<rightharpoonup> 'a DListNode"
  st_lists :: "nat \<Rightarrow> DList"
  st_fresh :: addr

text \<open>\<open>DList::DList()\<close>: every list object starts out default-constructed.\<close>

definition DList_ctor :: DList where
  "DList_ctor = \<lparr>dl_head = None, dl_tail = None, dl_size = 0\<rparr>"

definition init_store :: "'a store" where
  "init_store = \<lparr>st_nodes = Map.empty, st_lists = (\<lambda>_. DList_ctor), st_fresh = 0\<rparr>"

subsection \<open>Pointer primitives\<close>

definition deref :: "'a store \<Rightarrow> addr option \<Rightarrow> error + 'a DListNode" where
  "deref st p =
     (case p of
        None \<Rightarrow> Inl NullDeref
      | Some a \<Rightarrow> (case st_nodes st a of None \<Rightarrow> Inl Dangling | Some nd \<Rightarrow> Inr nd))"

text \<open>
  \<open>weak_ptr::lock\<close>: the target, or null when the target no longer exists. The
  \<open>_prev\<close> of a node of a well-formed chain is null or the preceding node of the same
  chain (\<open>dseg\<close> below), which \<open>_head\<close> owns through the \<open>_next\<close> links; so in
  the source and in the model alike \<open>lock\<close> yields exactly the stored pointer there.
\<close>

definition lock :: "'a store \<Rightarrow> addr option \<Rightarrow> addr option" where
  "lock st p =
     (case p of
        None \<Rightarrow> None
      | Some a \<Rightarrow> (case st_nodes st a of None \<Rightarrow> None | Some nd \<Rightarrow> Some a))"

text \<open>\<open>std::make_shared<DListNode>(item, prev, next)\<close>, running the node constructor.\<close>

definition make_shared ::
  "'a \<Rightarrow> addr option \<Rightarrow> addr option \<Rightarrow> 'a store \<Rightarrow> addr \<times> 'a store" where
  "make_shared x prev nxt st =
     (st_fresh st,
      st\<lparr>st_nodes := (st_nodes st)(st_fresh st \<mapsto>
            \<lparr>node_item = x, node_next = nxt, node_prev = prev\<rparr>),
         st_fresh := Suc (st_fresh st)\<rparr>)"

text \<open>The three field assignments through a node pointer: \<open>p->_next = v\<close> and so on.\<close>

definition set_next :: "addr option \<Rightarrow> addr option \<Rightarrow> 'a store \<Rightarrow> error + 'a store" where
  "set_next p v st =
     (case p of
        None \<Rightarrow> Inl NullDeref
      | Some a \<Rightarrow>
          (case st_nodes st a of
             None \<Rightarrow> Inl Dangling
           | Some nd \<Rightarrow> Inr (st\<lparr>st_nodes := (st_nodes st)(a \<mapsto> nd\<lparr>node_next := v\<rparr>)\<rparr>)))"

definition set_prev :: "addr option \<Rightarrow> addr option \<Rightarrow> 'a store \<Rightarrow> error + 'a store" where
  "set_prev p v st =
     (case p of
        None \<Rightarrow> Inl NullDeref
      | Some a \<Rightarrow>
          (case st_nodes st a of
             None \<Rightarrow> Inl Dangling
           | Some nd \<Rightarrow> Inr (st\<lparr>st_nodes := (st_nodes st)(a \<mapsto> nd\<lparr>node_prev := v\<rparr>)\<rparr>)))"

definition set_item :: "addr option \<Rightarrow> 'a \<Rightarrow> 'a store \<Rightarrow> error + 'a store" where
  "set_item p v st =
     (case p of
        None \<Rightarrow> Inl NullDeref
      | Some a \<Rightarrow>
          (case st_nodes st a of
             None \<Rightarrow> Inl Dangling
           | Some nd \<Rightarrow> Inr (st\<lparr>st_nodes := (st_nodes st)(a \<mapsto> nd\<lparr>node_item := v\<rparr>)\<rparr>)))"

text \<open>Assignment to fields of the list object \<open>this\<close>.\<close>

definition this_upd :: "nat \<Rightarrow> (DList \<Rightarrow> DList) \<Rightarrow> 'a store \<Rightarrow> 'a store" where
  "this_upd this f st = st\<lparr>st_lists := (st_lists st)(this := f (st_lists st this))\<rparr>"

section \<open>The member functions of \<open>DList\<close>\<close>

text \<open>
  \<open>length()\<close> returns \<open>_size\<close>; its conversion to \<open>size_t\<close> keeps the value of
  every non-negative size.
\<close>

definition DList_length :: "nat \<Rightarrow> 'a store \<Rightarrow> int" where
  "DList_length this st = dl_size (st_lists st this)"

text \<open>
  \<open>_find\<close>. The forward loop \<open>for (i = 0; i < position; i++)\<close> runs \<open>position\<close>
  times, the backward loop \<open>for (i = -1; i > position; i--)\<close> runs \<open>-1 - position\<close>
  times; each iteration dereferences \<open>current\<close>.
\<close>

fun walk_next :: "'a store \<Rightarrow> nat \<Rightarrow> addr option \<Rightarrow> error + addr option" where
  "walk_next st 0 current = Inr current"
| "walk_next st (Suc n) current =
     (case deref st current of
        Inl e \<Rightarrow> Inl e
      | Inr nd \<Rightarrow> walk_next st n (node_next nd))"

fun walk_prev :: "'a store \<Rightarrow> nat \<Rightarrow> addr option \<Rightarrow> error + addr option" where
  "walk_prev st 0 current = Inr current"
| "walk_prev st (Suc n) current =
     (case deref st current of
        Inl e \<Rightarrow> Inl e
      | Inr nd \<Rightarrow> walk_prev st n (lock st (node_prev nd)))"

definition DList_find :: "nat \<Rightarrow> int \<Rightarrow> 'a store \<Rightarrow> error + addr option" where
  "DList_find this position st =
     (let l = st_lists st this in
      if position \<ge> dl_size l \<or> position < - dl_size l then Inr None
      else if position \<ge> 0 then walk_next st (nat position) (dl_head l)
      else walk_prev st (nat (- 1 - position)) (dl_tail l))"

text \<open>\<open>operator[]\<close>, const: \<open>return _find(position)->_item\<close>.\<close>

definition DList_get :: "nat \<Rightarrow> int \<Rightarrow> 'a store \<Rightarrow> error + 'a" where
  "DList_get this position st =
     (case DList_find this position st of
        Inl e \<Rightarrow> Inl e
      | Inr p \<Rightarrow> (case deref st p of Inl e \<Rightarrow> Inl e | Inr nd \<Rightarrow> Inr (node_item nd)))"

text \<open>
  \<open>operator[]\<close>, non-const: the reference \<open>_find(position)->_item\<close> is the item field
  of a node, represented by that node's address; \<open>L[position] = v\<close> writes through it.
\<close>

definition DList_ref :: "nat \<Rightarrow> int \<Rightarrow> 'a store \<Rightarrow> error + addr" where
  "DList_ref this position st =
     (case DList_find this position st of
        Inl e \<Rightarrow> Inl e
      | Inr p \<Rightarrow>
          (case p of
             None \<Rightarrow> Inl NullDeref
           | Some a \<Rightarrow> (case st_nodes st a of None \<Rightarrow> Inl Dangling | Some nd \<Rightarrow> Inr a)))"

definition DList_set :: "nat \<Rightarrow> int \<Rightarrow> 'a \<Rightarrow> 'a store \<Rightarrow> error + 'a store" where
  "DList_set this position v st =
     (case DList_ref this position st of
        Inl e \<Rightarrow> Inl e
      | Inr a \<Rightarrow> set_item (Some a) v st)"

definition DList_clear :: "nat \<Rightarrow> 'a store \<Rightarrow> 'a store" where
  "DList_clear this st =
     this_upd this (\<lambda>l. l\<lparr>dl_size := 0\<rparr>)
       (this_upd this (\<lambda>l. l\<lparr>dl_tail := None\<rparr>)
         (this_upd this (\<lambda>l. l\<lparr>dl_head := None\<rparr>) st))"

definition DList_append :: "nat \<Rightarrow> 'a \<Rightarrow> 'a store \<Rightarrow> error + 'a store" where
  "DList_append this x st =
     (case make_shared x None None st of
        (newNode, st1) \<Rightarrow>
          if dl_size (st_lists st1 this) = 0 then
            Inr (this_upd this (\<lambda>l. l\<lparr>dl_size := dl_size l + 1\<rparr>)
                  (this_upd this (\<lambda>l. l\<lparr>dl_tail := Some newNode\<rparr>)
                    (this_upd this (\<lambda>l. l\<lparr>dl_head := Some newNode\<rparr>) st1)))
          else
            (case set_next (dl_tail (st_lists st1 this)) (Some newNode) st1 of
               Inl e \<Rightarrow> Inl e
             | Inr st2 \<Rightarrow>
                 (case set_prev (Some newNode) (dl_tail (st_lists st2 this)) st2 of
                    Inl e \<Rightarrow> Inl e
                  | Inr st3 \<Rightarrow>
                      Inr (this_upd this (\<lambda>l. l\<lparr>dl_size := dl_size l + 1\<rparr>)
                            (this_upd this (\<lambda>l. l\<lparr>dl_tail := Some newNode\<rparr>) st3)))))"

definition DList_insert :: "nat \<Rightarrow> int \<Rightarrow> 'a \<Rightarrow> 'a store \<Rightarrow> error + 'a store" where
  "DList_insert this position x st =
     (let sz = dl_size (st_lists st this);
          p1 = (if position < 0 then position + sz else position);
          p2 = (if p1 < 0 then 0 else p1);
          p3 = (if p2 > sz then sz else p2)
      in
      if sz = 0 \<or> p3 = sz then DList_append this x st
      else
        (case DList_find this p3 st of
           Inl e \<Rightarrow> Inl e
         | Inr current \<Rightarrow>
             (case deref st current of
                Inl e \<Rightarrow> Inl e
              | Inr cur \<Rightarrow>
                  (let previous = lock st (node_prev cur) in
                   case make_shared x previous current st of
                     (newNode, st1) \<Rightarrow>
                       (case (if previous \<noteq> None
                              then set_next previous (Some newNode) st1
                              else Inr (this_upd this (\<lambda>l. l\<lparr>dl_head := Some newNode\<rparr>) st1)) of
                          Inl e \<Rightarrow> Inl e
                        | Inr st2 \<Rightarrow>
                            (case set_prev current (Some newNode) st2 of
                               Inl e \<Rightarrow> Inl e
                             | Inr st3 \<Rightarrow>
                                 Inr (this_upd this (\<lambda>l. l\<lparr>dl_size := dl_size l + 1\<rparr>) st3)))))))"

text \<open>
  The unlink sequence, written out twice in the source with the same text (in
  \<open>_delete\<close> on \<open>current\<close> and in \<open>remove\<close> on \<open>node\<close>): redirect the predecessor's
  \<open>_next\<close> or \<open>_head\<close>, redirect the successor's \<open>_prev\<close> or \<open>_tail\<close>, decrement
  \<open>_size\<close>.
\<close>

definition unlink :: "nat \<Rightarrow> addr option \<Rightarrow> 'a store \<Rightarrow> error + 'a store" where
  "unlink this node st =
     (case deref st node of
        Inl e \<Rightarrow> Inl e
      | Inr nd \<Rightarrow>
          (let previous = lock st (node_prev nd); nxt = node_next nd in
           case (if previous \<noteq> None
                 then set_next previous nxt st
                 else Inr (this_upd this (\<lambda>l. l\<lparr>dl_head := nxt\<rparr>) st)) of
             Inl e \<Rightarrow> Inl e
           | Inr st1 \<Rightarrow>
               (case (if nxt \<noteq> None
                      then set_prev nxt previous st1
                      else Inr (this_upd this (\<lambda>l. l\<lparr>dl_tail := previous\<rparr>) st1)) of
                  Inl e \<Rightarrow> Inl e
                | Inr st2 \<Rightarrow> Inr (this_upd this (\<lambda>l. l\<lparr>dl_size := dl_size l - 1\<rparr>) st2))))"

text \<open>
  \<open>_delete\<close>. \<open>ItemType{}\<close>, the value-initialised element, is the parameter
  \<open>dflt\<close>. The removed item is read after the unlinking, as in the source.
\<close>

definition DList_delete :: "'a \<Rightarrow> nat \<Rightarrow> int \<Rightarrow> 'a store \<Rightarrow> error + ('a \<times> 'a store)" where
  "DList_delete dflt this position st =
     (let sz = dl_size (st_lists st this);
          p = (if position < 0 then position + sz else position)
      in
      if p < 0 \<or> p \<ge> sz then Inr (dflt, st)
      else
        (case DList_find this p st of
           Inl e \<Rightarrow> Inl e
         | Inr current \<Rightarrow>
             (case unlink this current st of
                Inl e \<Rightarrow> Inl e
              | Inr st' \<Rightarrow>
                  (case deref st' current of
                     Inl e \<Rightarrow> Inl e
                   | Inr cur \<Rightarrow> Inr (node_item cur, st')))))"

definition DList_pop :: "'a \<Rightarrow> nat \<Rightarrow> int \<Rightarrow> 'a store \<Rightarrow> error + ('a \<times> 'a store)" where
  "DList_pop dflt this position st = DList_delete dflt this position st"

text \<open>\<open>pop()\<close> with the default argument \<open>position = -1\<close>.\<close>

definition DList_pop_default :: "'a \<Rightarrow> nat \<Rightarrow> 'a store \<Rightarrow> error + ('a \<times> 'a store)" where
  "DList_pop_default dflt this st = DList_pop dflt this (- 1) st"

text \<open>
  The element comparison. \<open>remove\<close> and \<open>index\<close> test \<open>node->_item == x\<close> with
  \<open>ItemType::operator==\<close>, which is whatever the element type provides: equality of
  values for \<open>int\<close> and \<open>std::string\<close>, while for \<open>double\<close> a NaN differs from itself
  and the two zeros compare equal. The comparison is therefore the parameter \<open>eq\<close> of
  both functions, applied to the item first and to \<open>x\<close> second, as in the source.
\<close>

text \<open>
  \<open>remove\<close>. The loop follows \<open>_next\<close> until it meets null; on a cyclic chain it
  would not return, which is the value \<open>None\<close> here.
\<close>

partial_function (option) remove_loop ::
  "('a \<Rightarrow> 'a \<Rightarrow> bool) \<Rightarrow> nat \<Rightarrow> 'a \<Rightarrow> addr option \<Rightarrow> 'a store \<Rightarrow>
   (error + 'a store) option" where
  "remove_loop eq this x node st =
     (case node of
        None \<Rightarrow> Some (Inr st)
      | Some a \<Rightarrow>
          (case st_nodes st a of
             None \<Rightarrow> Some (Inl Dangling)
           | Some nd \<Rightarrow>
               if eq (node_item nd) x then Some (unlink this node st)
               else remove_loop eq this x (node_next nd) st))"

definition DList_remove ::
  "('a \<Rightarrow> 'a \<Rightarrow> bool) \<Rightarrow> nat \<Rightarrow> 'a \<Rightarrow> 'a store \<Rightarrow> (error + 'a store) option" where
  "DList_remove eq this x st = remove_loop eq this x (dl_head (st_lists st this)) st"

text \<open>
  \<open>index\<close>. \<open>start\<close> and the running \<open>index\<close> are \<open>size_t\<close>; the call
  \<open>_find(start)\<close> converts \<open>start\<close> to \<open>long\<close> (two's complement, \<open>sint\<close>), and
  \<open>return -1\<close> converts \<open>-1\<close> to \<open>size_t\<close>.
\<close>

partial_function (option) index_loop ::
  "('a \<Rightarrow> 'a \<Rightarrow> bool) \<Rightarrow> 'a \<Rightarrow> addr option \<Rightarrow> 64 word \<Rightarrow> 'a store \<Rightarrow>
   (error + 64 word) option" where
  "index_loop eq x node index st =
     (case node of
        None \<Rightarrow> Some (Inr (- 1))
      | Some a \<Rightarrow>
          (case st_nodes st a of
             None \<Rightarrow> Some (Inl Dangling)
           | Some nd \<Rightarrow>
               if eq (node_item nd) x then Some (Inr index)
               else index_loop eq x (node_next nd) (index + 1) st))"

definition DList_index ::
  "('a \<Rightarrow> 'a \<Rightarrow> bool) \<Rightarrow> nat \<Rightarrow> 'a \<Rightarrow> 64 word \<Rightarrow> 'a store \<Rightarrow>
   (error + 64 word) option" where
  "DList_index eq this x start st =
     (case DList_find this (sint start) st of
        Inl e \<Rightarrow> Some (Inl e)
      | Inr node \<Rightarrow> index_loop eq x node start st)"

text \<open>\<open>index(x)\<close> with the default argument \<open>start = 0\<close>.\<close>

definition DList_index_default ::
  "('a \<Rightarrow> 'a \<Rightarrow> bool) \<Rightarrow> nat \<Rightarrow> 'a \<Rightarrow> 'a store \<Rightarrow> (error + 64 word) option" where
  "DList_index_default eq this x st = DList_index eq this x 0 st"

text \<open>
  \<open>extend\<close>. In both loops \<open>node = node->_next\<close> is read after the \<open>append\<close>, from
  the store the \<open>append\<close> has left. The loop of the aliased case runs \<open>n\<close> times for
  the \<open>_size\<close> captured before it.
\<close>

fun extend_self_loop :: "nat \<Rightarrow> nat \<Rightarrow> addr option \<Rightarrow> 'a store \<Rightarrow> error + 'a store" where
  "extend_self_loop this 0 node st = Inr st"
| "extend_self_loop this (Suc k) node st =
     (case deref st node of
        Inl e \<Rightarrow> Inl e
      | Inr nd \<Rightarrow>
          (case DList_append this (node_item nd) st of
             Inl e \<Rightarrow> Inl e
           | Inr st1 \<Rightarrow>
               (case deref st1 node of
                  Inl e \<Rightarrow> Inl e
                | Inr nd1 \<Rightarrow> extend_self_loop this k (node_next nd1) st1)))"

partial_function (option) extend_loop ::
  "nat \<Rightarrow> addr option \<Rightarrow> 'a store \<Rightarrow> (error + 'a store) option" where
  "extend_loop this node st =
     (case node of
        None \<Rightarrow> Some (Inr st)
      | Some a \<Rightarrow>
          (case st_nodes st a of
             None \<Rightarrow> Some (Inl Dangling)
           | Some nd \<Rightarrow>
               (case DList_append this (node_item nd) st of
                  Inl e \<Rightarrow> Some (Inl e)
                | Inr st1 \<Rightarrow>
                    (case st_nodes st1 a of
                       None \<Rightarrow> Some (Inl Dangling)
                     | Some nd1 \<Rightarrow> extend_loop this (node_next nd1) st1))))"

definition DList_extend :: "nat \<Rightarrow> nat \<Rightarrow> 'a store \<Rightarrow> (error + 'a store) option" where
  "DList_extend this otherList st =
     (if otherList = this then
        Some (extend_self_loop this (nat (dl_size (st_lists st this)))
                (dl_head (st_lists st this)) st)
      else extend_loop this (dl_head (st_lists st otherList)) st)"

text \<open>
  \<open>_copy\<close>. \<open>source._head\<close> is read first and \<open>source._size\<close> last, each from the
  store as it is at that point.
\<close>

partial_function (option) copy_loop ::
  "addr option \<Rightarrow> addr option \<Rightarrow> 'a store \<Rightarrow> (error + addr option \<times> 'a store) option" where
  "copy_loop sourceNode newNode st =
     (case sourceNode of
        None \<Rightarrow> Some (Inr (newNode, st))
      | Some a \<Rightarrow>
          (case st_nodes st a of
             None \<Rightarrow> Some (Inl Dangling)
           | Some src \<Rightarrow>
               (case make_shared (node_item src) newNode None st of
                  (n, st1) \<Rightarrow>
                    (case set_next newNode (Some n) st1 of
                       Inl e \<Rightarrow> Some (Inl e)
                     | Inr st2 \<Rightarrow>
                         (case deref st2 newNode of
                            Inl e \<Rightarrow> Some (Inl e)
                          | Inr nw \<Rightarrow>
                              (case st_nodes st2 a of
                                 None \<Rightarrow> Some (Inl Dangling)
                               | Some src2 \<Rightarrow>
                                   copy_loop (node_next src2) (node_next nw) st2))))))"

definition DList_copy :: "nat \<Rightarrow> nat \<Rightarrow> 'a store \<Rightarrow> (error + 'a store) option" where
  "DList_copy this source st =
     (let sourceNode = dl_head (st_lists st source) in
      case (case sourceNode of
              Some a \<Rightarrow>
                (case st_nodes st a of
                   None \<Rightarrow> Some (Inl Dangling)
                 | Some src \<Rightarrow>
                     (case make_shared (node_item src) None None st of
                        (n, st1) \<Rightarrow>
                          (let st2 = this_upd this (\<lambda>l. l\<lparr>dl_head := Some n\<rparr>) st1 in
                           case st_nodes st2 a of
                             None \<Rightarrow> Some (Inl Dangling)
                           | Some src2 \<Rightarrow> copy_loop (node_next src2) (Some n) st2)))
            | None \<Rightarrow>
                Some (Inr (None, this_upd this (\<lambda>l. l\<lparr>dl_head := None\<rparr>) st))) of
        None \<Rightarrow> None
      | Some (Inl e) \<Rightarrow> Some (Inl e)
      | Some (Inr (newNode, st3)) \<Rightarrow>
          (let st4 = this_upd this (\<lambda>l. l\<lparr>dl_tail := newNode\<rparr>) st3 in
           Some (Inr (this_upd this (\<lambda>l. l\<lparr>dl_size := dl_size (st_lists st4 source)\<rparr>) st4))))"

text \<open>The copy constructor and the assignment operator.\<close>

definition DList_copy_ctor :: "nat \<Rightarrow> nat \<Rightarrow> 'a store \<Rightarrow> (error + 'a store) option" where
  "DList_copy_ctor this source st = DList_copy this source st"

definition DList_assign :: "nat \<Rightarrow> nat \<Rightarrow> 'a store \<Rightarrow> (error + 'a store) option" where
  "DList_assign this source st =
     (if this \<noteq> source then DList_copy this source (DList_clear this st)
      else Some (Inr st))"

section \<open>The representation invariant\<close>

text \<open>
  \<open>dseg h pv p as lst q\<close>: in the node heap \<open>h\<close> the pointer \<open>p\<close> leads through
  exactly the nodes \<open>as\<close> along \<open>_next\<close> and leaves them with \<open>q\<close>; the \<open>_prev\<close> of
  the first node is \<open>pv\<close>, the \<open>_prev\<close> of every later node is its predecessor in
  \<open>as\<close>, and \<open>lst\<close> is the last node (or \<open>pv\<close> when there is none).
\<close>

fun dseg ::
  "(addr \<rightharpoonup> 'a DListNode) \<Rightarrow> addr option \<Rightarrow> addr option \<Rightarrow> addr list \<Rightarrow>
   addr option \<Rightarrow> addr option \<Rightarrow> bool" where
  "dseg h pv p [] lst q = (p = q \<and> lst = pv)"
| "dseg h pv p (a # as) lst q =
     (p = Some a \<and>
      (case h a of
         None \<Rightarrow> False
       | Some nd \<Rightarrow> node_prev nd = pv \<and> dseg h (Some a) (node_next nd) as lst q))"

definition dlist_inv :: "(addr \<rightharpoonup> 'a DListNode) \<Rightarrow> DList \<Rightarrow> addr list \<Rightarrow> bool" where
  "dlist_inv h l as \<longleftrightarrow>
     dseg h None (dl_head l) as (dl_tail l) None \<and> dl_size l = int (length as) \<and> distinct as"

text \<open>
  The list object \<open>this\<close> of the store owns the chain \<open>as\<close>, and all of its nodes
  have been allocated.
\<close>

definition dlist_at :: "'a store \<Rightarrow> nat \<Rightarrow> addr list \<Rightarrow> bool" where
  "dlist_at st this as \<longleftrightarrow>
     dlist_inv (st_nodes st) (st_lists st this) as \<and> (\<forall>a\<in>set as. a < st_fresh st)"

definition contents :: "'a store \<Rightarrow> addr list \<Rightarrow> 'a list" where
  "contents st as = map (\<lambda>a. node_item (the (st_nodes st a))) as"

text \<open>
  What a member function of \<open>this\<close> leaves alone: the other list objects, and every
  allocated node outside the chain of \<open>this\<close>.
\<close>

definition frame :: "'a store \<Rightarrow> nat \<Rightarrow> addr list \<Rightarrow> 'a store \<Rightarrow> bool" where
  "frame st this as st' \<longleftrightarrow>
     st_fresh st \<le> st_fresh st' \<and>
     (\<forall>l. l \<noteq> this \<longrightarrow> st_lists st' l = st_lists st l) \<and>
     (\<forall>a. a < st_fresh st \<longrightarrow> a \<notin> set as \<longrightarrow> st_nodes st' a = st_nodes st a)"

section \<open>Reference behaviour on plain lists\<close>

text \<open>
  The insertion index as the specification words it: a negative position has the size
  added; what is still negative becomes 0; what exceeds the size becomes the size.
\<close>

definition spec_insert_index :: "int \<Rightarrow> int \<Rightarrow> nat" where
  "spec_insert_index sz position =
     (let p = (if position < 0 then position + sz else position);
          p = (if p < 0 then 0 else p);
          p = (if p > sz then sz else p)
      in nat p)"

definition spec_insert :: "nat \<Rightarrow> 'b \<Rightarrow> 'b list \<Rightarrow> 'b list" where
  "spec_insert k x xs = take k xs @ x # drop k xs"

definition spec_delete :: "nat \<Rightarrow> 'b list \<Rightarrow> 'b list" where
  "spec_delete k xs = take k xs @ drop (Suc k) xs"

text \<open>
  The position a deletion acts on, as the specification words it: a negative position
  has the size added.
\<close>

definition spec_pop_index :: "int \<Rightarrow> int \<Rightarrow> int" where
  "spec_pop_index sz position = (if position < 0 then position + sz else position)"

section \<open>Reading a list object back from the store\<close>

text \<open>
  \<open>cells\<close> follows \<open>_next\<close> from \<open>_head\<close> for at most \<open>_size\<close> steps and collects
  the nodes it meets; \<open>elems\<close> are their items, the list as a client sees it through
  \<open>operator[]\<close>. \<open>well_formed\<close> is the representation invariant for the chain found
  this way.
\<close>

fun next_chain :: "(addr \<rightharpoonup> 'a DListNode) \<Rightarrow> nat \<Rightarrow> addr option \<Rightarrow> addr list" where
  "next_chain h 0 p = []"
| "next_chain h (Suc n) p =
     (case p of
        None \<Rightarrow> []
      | Some a \<Rightarrow> a # (case h a of None \<Rightarrow> [] | Some nd \<Rightarrow> next_chain h n (node_next nd)))"

definition cells :: "'a store \<Rightarrow> nat \<Rightarrow> addr list" where
  "cells st this =
     next_chain (st_nodes st) (nat (dl_size (st_lists st this))) (dl_head (st_lists st this))"

definition elems :: "'a store \<Rightarrow> nat \<Rightarrow> 'a list" where
  "elems st this = contents st (cells st this)"

definition well_formed :: "'a store \<Rightarrow> nat \<Rightarrow> bool" where
  "well_formed st this \<longleftrightarrow> dlist_at st this (cells st this)"

text \<open>Two list objects share no node.\<close>

definition separate :: "'a store \<Rightarrow> nat \<Rightarrow> nat \<Rightarrow> bool" where
  "separate st l l' \<longleftrightarrow> set (cells st l) \<inter> set (cells st l') = {}"

text \<open>
  What a copy has to be: both lists well formed on disjoint nodes with the elements
  \<open>xs\<close>, and an element assignment \<open>L[position] = v\<close> at any valid position of one of
  them returns, changes that element of that list, and leaves the other list as it was.
\<close>

definition independent_copy :: "'a store \<Rightarrow> nat \<Rightarrow> nat \<Rightarrow> 'a list \<Rightarrow> bool" where
  "independent_copy st this source xs \<longleftrightarrow>
     well_formed st this \<and> well_formed st source \<and> separate st this source \<and>
     DList_length this st = int (length xs) \<and> DList_length source st = int (length xs) \<and>
     elems st this = xs \<and> elems st source = xs \<and>
     (\<forall>position v.
        - int (length xs) \<le> position \<and> position < int (length xs) \<longrightarrow>
        (\<exists>st'. DList_set this position v st = Inr st' \<and>
           elems st' this = xs[nat (spec_pop_index (int (length xs)) position) := v] \<and>
           elems st' source = xs) \<and>
        (\<exists>st'. DList_set source position v st = Inr st' \<and>
           elems st' source = xs[nat (spec_pop_index (int (length xs)) position) := v] \<and>
           elems st' this = xs))"

text \<open>Forward traversal along \<open>_next\<close> and backward traversal along \<open>_prev\<close>, to null.\<close>

fun fwd_traversal :: "(addr \<rightharpoonup> 'a DListNode) \<Rightarrow> addr option \<Rightarrow> addr list \<Rightarrow> bool" where
  "fwd_traversal h p [] = (p = None)"
| "fwd_traversal h p (a # as) =
     (p = Some a \<and> (case h a of None \<Rightarrow> False | Some nd \<Rightarrow> fwd_traversal h (node_next nd) as))"

fun bwd_traversal :: "(addr \<rightharpoonup> 'a DListNode) \<Rightarrow> addr option \<Rightarrow> addr list \<Rightarrow> bool" where
  "bwd_traversal h p [] = (p = None)"
| "bwd_traversal h p (a # as) =
     (p = Some a \<and> (case h a of None \<Rightarrow> False | Some nd \<Rightarrow> bwd_traversal h (node_prev nd) as))"

text \<open>
  The invariant of the whole store: every list object is well formed, and different
  list objects own different nodes.
\<close>

definition store_inv :: "'a store \<Rightarrow> bool" where
  "store_inv st \<longleftrightarrow>
     (\<forall>l. well_formed st l) \<and> (\<forall>l l'. l \<noteq> l' \<longrightarrow> separate st l l')"

text \<open>
  The stores a client can produce: starting with all list objects default-constructed,
  any sequence of calls of the public member functions that return.
\<close>

inductive reachable :: "'a store \<Rightarrow> bool" where
  r_init: "reachable init_store"
| r_append: "reachable st \<Longrightarrow> DList_append this x st = Inr st' \<Longrightarrow> reachable st'"
| r_insert: "reachable st \<Longrightarrow> DList_insert this position x st = Inr st' \<Longrightarrow> reachable st'"
| r_pop: "reachable st \<Longrightarrow> DList_pop dflt this position st = Inr (v, st') \<Longrightarrow> reachable st'"
| r_remove: "reachable st \<Longrightarrow> DList_remove eq this x st = Some (Inr st') \<Longrightarrow> reachable st'"
| r_clear: "reachable st \<Longrightarrow> reachable (DList_clear this st)"
| r_extend: "reachable st \<Longrightarrow> DList_extend this other st = Some (Inr st') \<Longrightarrow> reachable st'"
| r_copy: "reachable st \<Longrightarrow> this \<noteq> source \<Longrightarrow>
           DList_copy_ctor this source st = Some (Inr st') \<Longrightarrow> reachable st'"
| r_assign: "reachable st \<Longrightarrow> DList_assign this source st = Some (Inr st') \<Longrightarrow> reachable st'"
| r_set: "reachable st \<Longrightarrow> DList_set this position v st = Inr st' \<Longrightarrow> reachable st'"

text \<open>A list built by appending the values \<open>vs\<close> one after the other.\<close>

fun appends :: "nat \<Rightarrow> 'a list \<Rightarrow> 'a store \<Rightarrow> error + 'a store" where
  "appends this [] st = Inr st"
| "appends this (v # vs) st =
     (case DList_append this v st of Inl e \<Rightarrow> Inl e | Inr st' \<Rightarrow> appends this vs st')"

section \<open>Example stores\<close>

text \<open>
  \<open>ex_store\<close>: list object 0 is \<open>[10, 20, 30]\<close> in the nodes 0, 1, 2, and list object
  1 is \<open>[7]\<close> in node 3, as three and one \<open>append\<close> calls leave them.
\<close>

definition ex_store :: "int store" where
  "ex_store =
     \<lparr>st_nodes = [0 \<mapsto> \<lparr>node_item = 10, node_next = Some 1, node_prev = None\<rparr>,
                  1 \<mapsto> \<lparr>node_item = 20, node_next = Some 2, node_prev = Some 0\<rparr>,
                  2 \<mapsto> \<lparr>node_item = 30, node_next = None, node_prev = Some 1\<rparr>,
                  3 \<mapsto> \<lparr>node_item = 7, node_next = None, node_prev = None\<rparr>],
      st_lists = (\<lambda>_. DList_ctor)
        (0 := \<lparr>dl_head = Some 0, dl_tail = Some 2, dl_size = 3\<rparr>,
         1 := \<lparr>dl_head = Some 3, dl_tail = Some 3, dl_size = 1\<rparr>),
      st_fresh = 4\<rparr>"

text \<open>
  \<open>ex_partial_store\<close>: list object 0 is \<open>[Some 15, None, Some 25]\<close>, and
  \<open>ex_partial_eq\<close> is a comparison under which \<open>None\<close> differs from everything,
  itself included, the way \<open>operator==\<close> of \<open>double\<close> treats a NaN.
\<close>

definition ex_partial_eq :: "int option \<Rightarrow> int option \<Rightarrow> bool" where
  "ex_partial_eq a b = (case a of None \<Rightarrow> False | Some v \<Rightarrow> b = Some v)"

definition ex_partial_store :: "int option store" where
  "ex_partial_store =
     \<lparr>st_nodes = [0 \<mapsto> \<lparr>node_item = Some 15, node_next = Some 1, node_prev = None\<rparr>,
                  1 \<mapsto> \<lparr>node_item = None, node_next = Some 2, node_prev = Some 0\<rparr>,
                  2 \<mapsto> \<lparr>node_item = Some 25, node_next = None, node_prev = Some 1\<rparr>],
      st_lists = (\<lambda>_. DList_ctor)
        (0 := \<lparr>dl_head = Some 0, dl_tail = Some 2, dl_size = 3\<rparr>),
      st_fresh = 3\<rparr>"

section \<open>Properties of segments\<close>

lemma dseg_append:
  "dseg h pv p (as @ bs) lst q = (\<exists>m r. dseg h pv p as m r \<and> dseg h m r bs lst q)"
  by (induction as arbitrary: pv p) (auto split: option.splits)

lemma dseg_cong:
  "\<forall>a\<in>set as. h' a = h a \<Longrightarrow> dseg h' pv p as lst q = dseg h pv p as lst q"
  by (induction as arbitrary: pv p) (auto split: option.splits)

lemma dseg_snoc:
  "dseg h pv p (as @ [a]) lst q =
     (lst = Some a \<and> (\<exists>nd. h a = Some nd \<and> node_next nd = q \<and>
        dseg h pv p as (node_prev nd) (Some a)))"
  by (auto simp: dseg_append split: option.splits)

lemma dseg_last:
  "dseg h pv p as lst q \<Longrightarrow> lst = (if as = [] then pv else Some (last as))"
  by (induction as arbitrary: pv p) (auto split: option.splits)

lemma dseg_hd:
  "dseg h pv p as lst q \<Longrightarrow> p = (if as = [] then q else Some (hd as))"
  by (cases as) auto

lemma dseg_dom:
  "dseg h pv p as lst q \<Longrightarrow> a \<in> set as \<Longrightarrow> \<exists>nd. h a = Some nd"
  by (induction as arbitrary: pv p) (auto split: option.splits)

lemma dseg_nth:
  "dseg h pv p as lst q \<Longrightarrow> i < length as \<Longrightarrow>
   \<exists>nd. h (as ! i) = Some nd \<and>
        node_next nd = (if Suc i < length as then Some (as ! Suc i) else q) \<and>
        node_prev nd = (if i = 0 then pv else Some (as ! (i - 1)))"
proof (induction as arbitrary: pv p i)
  case Nil
  then show ?case by simp
next
  case (Cons a as)
  from Cons.prems obtain nd where nd: "h a = Some nd" "node_prev nd = pv"
    "dseg h (Some a) (node_next nd) as lst q"
    by (auto split: option.splits)
  show ?case
  proof (cases i)
    case 0
    with nd dseg_hd [OF nd(3)] show ?thesis by (cases as) auto
  next
    case (Suc j)
    with Cons.prems have "j < length as" by simp
    from Cons.IH [OF nd(3) this] Suc show ?thesis
      by (cases j) auto
  qed
qed

lemma walk_next_dseg:
  "dseg (st_nodes st) pv p as lst q \<Longrightarrow> k \<le> length as \<Longrightarrow>
   walk_next st k p = Inr (if k < length as then Some (as ! k) else q)"
proof (induction as arbitrary: pv p k)
  case Nil
  then show ?case by simp
next
  case (Cons a as)
  show ?case
  proof (cases k)
    case 0
    with Cons.prems show ?thesis by simp
  next
    case (Suc j)
    with Cons.prems Cons.IH [of "Some a" _ j] show ?thesis
      by (auto simp: deref_def split: option.splits)
  qed
qed

lemma walk_prev_dseg:
  "dseg (st_nodes st) None p as lst q \<Longrightarrow> k \<le> length as \<Longrightarrow>
   walk_prev st k lst = Inr (if k < length as then Some (rev as ! k) else None)"
proof (induction as arbitrary: lst q k rule: rev_induct)
  case Nil
  then show ?case by simp
next
  case (snoc a as)
  from snoc.prems(1) obtain nd where nd: "lst = Some a" "st_nodes st a = Some nd"
    "node_next nd = q" "dseg (st_nodes st) None p as (node_prev nd) (Some a)"
    by (auto simp: dseg_snoc)
  show ?case
  proof (cases k)
    case 0
    with nd show ?thesis by simp
  next
    case (Suc j)
    have lk: "lock st (node_prev nd) = node_prev nd"
    proof (cases "as = []")
      case True
      with dseg_last [OF nd(4)] show ?thesis by (simp add: lock_def)
    next
      case False
      then have "last as \<in> set as" by simp
      from dseg_dom [OF nd(4) this] dseg_last [OF nd(4)] False show ?thesis
        by (auto simp: lock_def)
    qed
    from Suc snoc.prems have "j \<le> length as" by simp
    from snoc.IH [OF nd(4) this] Suc nd lk show ?thesis
      by (auto simp: deref_def)
  qed
qed


section \<open>The member functions on a well-formed list\<close>

subsection \<open>\<open>_find\<close> and \<open>append\<close>\<close>

lemma find_spec:
  assumes "dlist_at st this as"
  shows "DList_find this pos st =
           Inr (if pos \<ge> int (length as) \<or> pos < - int (length as) then None
                else if pos \<ge> 0 then Some (as ! nat pos)
                else Some (as ! nat (int (length as) + pos)))"
proof -
  let ?l = "st_lists st this"
  from assms have seg: "dseg (st_nodes st) None (dl_head ?l) as (dl_tail ?l) None"
    and sz: "dl_size ?l = int (length as)"
    by (simp_all add: dlist_at_def dlist_inv_def)
  show ?thesis
  proof (cases "pos \<ge> int (length as) \<or> pos < - int (length as)")
    case True
    with sz show ?thesis by (auto simp: DList_find_def Let_def)
  next
    case out: False
    show ?thesis
    proof (cases "pos \<ge> 0")
      case True
      with out have "nat pos < length as" by simp
      with walk_next_dseg [OF seg, of "nat pos"] out True sz show ?thesis
        by (simp add: DList_find_def Let_def)
    next
      case False
      define k where "k = nat (- 1 - pos)"
      from out False have k: "k < length as" by (simp add: k_def)
      from out False have idx: "length as - Suc k = nat (int (length as) + pos)"
        by (simp add: k_def)
      from walk_prev_dseg [OF seg, of k] k
      have "walk_prev st k (dl_tail ?l) = Inr (Some (rev as ! k))" by simp
      with k idx have "walk_prev st k (dl_tail ?l) =
          Inr (Some (as ! nat (int (length as) + pos)))"
        by (simp add: rev_nth)
      with out False sz show ?thesis
        by (simp add: DList_find_def Let_def k_def)
    qed
  qed
qed

lemma append_spec:
  assumes "dlist_at st this as"
  shows "\<exists>st'. DList_append this x st = Inr st' \<and>
           dlist_at st' this (as @ [st_fresh st]) \<and>
           contents st' (as @ [st_fresh st]) = contents st as @ [x] \<and>
           st_fresh st' = Suc (st_fresh st) \<and>
           frame st this as st'"
proof -
  let ?l = "st_lists st this" and ?h = "st_nodes st" and ?n = "st_fresh st"
  from assms have seg: "dseg ?h None (dl_head ?l) as (dl_tail ?l) None"
    and sz: "dl_size ?l = int (length as)" and dist: "distinct as"
    and fr: "\<forall>a\<in>set as. a < ?n"
    by (simp_all add: dlist_at_def dlist_inv_def)
  show ?thesis
  proof (cases as rule: rev_cases)
    case Nil
    with seg sz show ?thesis
      by (simp add: DList_append_def make_shared_def this_upd_def dlist_at_def dlist_inv_def
          contents_def frame_def)
  next
    case (snoc bs t)
    from seg snoc obtain nd where nd: "dl_tail ?l = Some t" "?h t = Some nd"
      "node_next nd = None" "dseg ?h None (dl_head ?l) bs (node_prev nd) (Some t)"
      by (auto simp: dseg_snoc)
    from fr dist snoc have neq: "t \<noteq> ?n" "?n \<notin> set bs" "t \<notin> set bs" by auto
    let ?h' = "?h(?n \<mapsto> \<lparr>node_item = x, node_next = None, node_prev = Some t\<rparr>,
                  t \<mapsto> nd\<lparr>node_next := Some ?n\<rparr>)"
    have h'bs: "\<forall>a\<in>set bs. ?h' a = ?h a" using neq by auto
    have segbs: "dseg ?h' None (dl_head ?l) bs (node_prev nd) (Some t)"
      unfolding dseg_cong [OF h'bs] by (rule nd(4))
    have "dseg ?h' (node_prev nd) (Some t) [t, ?n] (Some ?n) None"
      using neq by simp
    with segbs have seg': "dseg ?h' None (dl_head ?l) (bs @ [t, ?n]) (Some ?n) None"
      unfolding dseg_append by blast
    define st' where "st' = st\<lparr>st_nodes := ?h',
      st_lists := (st_lists st)(this := ?l\<lparr>dl_tail := Some ?n, dl_size := dl_size ?l + 1\<rparr>),
      st_fresh := Suc ?n\<rparr>"
    have run: "DList_append this x st = Inr st'"
      using nd neq sz snoc
      by (simp add: DList_append_def make_shared_def this_upd_def set_next_def set_prev_def
          st'_def fun_upd_twist)
    have "dlist_at st' this (as @ [?n])"
      using seg' sz dist fr snoc neq
      by (auto simp: dlist_at_def dlist_inv_def st'_def less_Suc_eq)
    moreover have "contents st' (as @ [?n]) = contents st as @ [x]"
      using neq snoc nd by (auto simp: contents_def st'_def)
    moreover have "frame st this as st'"
      using snoc by (auto simp: frame_def st'_def)
    ultimately show ?thesis using run by (simp add: st'_def)
  qed
qed


subsection \<open>Unlinking and inserting a node\<close>

lemma dseg_set_next_last:
  assumes "dseg h pv p (bs @ [b]) lst q" and "b \<notin> set bs" and "h b = Some nd"
  shows "dseg (h(b \<mapsto> nd\<lparr>node_next := q'\<rparr>)) pv p (bs @ [b]) lst q'"
proof -
  let ?h' = "h(b \<mapsto> nd\<lparr>node_next := q'\<rparr>)"
  from assms have "lst = Some b" "dseg h pv p bs (node_prev nd) (Some b)"
    by (auto simp: dseg_snoc)
  moreover have "\<forall>a\<in>set bs. ?h' a = h a" using assms(2) by auto
  ultimately have "dseg ?h' pv p bs (node_prev nd) (Some b)"
    by (simp only: dseg_cong)
  with \<open>lst = Some b\<close> show ?thesis by (simp add: dseg_snoc)
qed

lemma dseg_set_prev_first:
  assumes "dseg h pv p (c # cs) lst q" and "c \<notin> set cs" and "h c = Some nd"
  shows "dseg (h(c \<mapsto> nd\<lparr>node_prev := pv'\<rparr>)) pv' p (c # cs) lst q"
proof -
  let ?h' = "h(c \<mapsto> nd\<lparr>node_prev := pv'\<rparr>)"
  from assms have "p = Some c" "dseg h (Some c) (node_next nd) cs lst q"
    by auto
  moreover have "\<forall>a\<in>set cs. ?h' a = h a" using assms(2) by auto
  ultimately have "dseg ?h' (Some c) (node_next nd) cs lst q"
    by (simp only: dseg_cong)
  with \<open>p = Some c\<close> show ?thesis by simp
qed

lemma unlink_spec:
  assumes at: "dlist_at st this as" and k: "k < length as"
  shows "\<exists>st'. unlink this (Some (as ! k)) st = Inr st' \<and>
           dlist_at st' this (take k as @ drop (Suc k) as) \<and>
           contents st' (take k as @ drop (Suc k) as) =
             take k (contents st as) @ drop (Suc k) (contents st as) \<and>
           (\<exists>nd'. st_nodes st' (as ! k) = Some nd' \<and>
                  node_item nd' = node_item (the (st_nodes st (as ! k)))) \<and>
           st_fresh st' = st_fresh st \<and>
           frame st this as st'"
proof -
  let ?l = "st_lists st this" and ?h = "st_nodes st"
  define bs c cs where "bs = take k as" and "c = as ! k" and "cs = drop (Suc k) as"
  from k have as: "as = bs @ c # cs"
    by (simp add: bs_def c_def cs_def id_take_nth_drop)
  from at have seg: "dseg ?h None (dl_head ?l) as (dl_tail ?l) None"
    and sz: "dl_size ?l = int (length as)" and dist: "distinct as"
    and fr: "\<forall>a\<in>set as. a < st_fresh st"
    by (simp_all add: dlist_at_def dlist_inv_def)
  from seg as obtain m ndc where
    pre: "dseg ?h None (dl_head ?l) bs m (Some c)" and
    ndc: "?h c = Some ndc" "node_prev ndc = m" and
    suf: "dseg ?h (Some c) (node_next ndc) cs (dl_tail ?l) None"
    by (auto simp: dseg_append split: option.splits)
  define nxt where "nxt = node_next ndc"
  have m: "m = (if bs = [] then None else Some (last bs))"
    using dseg_last [OF pre] .
  have nxt: "nxt = (if cs = [] then None else Some (hd cs))"
    using dseg_hd [OF suf] by (simp add: nxt_def)
  have lk: "lock st m = m"
  proof (cases "bs = []")
    case True
    with m show ?thesis by (simp add: lock_def)
  next
    case False
    then have "last bs \<in> set bs" by simp
    from dseg_dom [OF pre this] m False show ?thesis by (auto simp: lock_def)
  qed
  from dist as have d: "distinct bs" "distinct cs" "c \<notin> set bs" "c \<notin> set cs"
    "set bs \<inter> set cs = {}" by auto
  \<comment> \<open>first redirection: the predecessor's \<open>_next\<close>, or \<open>_head\<close>\<close>
  define h1 where "h1 = (case m of None \<Rightarrow> ?h
                          | Some b \<Rightarrow> ?h(b \<mapsto> (the (?h b))\<lparr>node_next := nxt\<rparr>))"
  define head1 where "head1 = (case m of None \<Rightarrow> nxt | Some b \<Rightarrow> dl_head ?l)"
  have pre1: "dseg h1 None head1 bs m nxt"
  proof (cases bs rule: rev_cases)
    case Nil
    with pre m show ?thesis by (simp add: h1_def head1_def)
  next
    case (snoc bs' b)
    with m have mb: "m = Some b" by simp
    from pre snoc obtain ndb where ndb: "?h b = Some ndb" by (auto simp: dseg_snoc)
    from d snoc have "b \<notin> set bs'" by simp
    from dseg_set_next_last [OF pre [unfolded snoc] this ndb, of nxt] mb ndb snoc
    show ?thesis by (simp add: h1_def head1_def)
  qed
  have h1cs: "\<forall>a\<in>set cs. h1 a = ?h a"
  proof (cases "bs = []")
    case True
    with m show ?thesis by (simp add: h1_def)
  next
    case False
    then have "last bs \<in> set bs" by simp
    with m d False have "m = Some (last bs)" "last bs \<notin> set cs"
      by (auto simp: disjoint_iff)
    then show ?thesis by (auto simp: h1_def)
  qed
  have suf1: "dseg h1 (Some c) nxt cs (dl_tail ?l) None"
    unfolding dseg_cong [OF h1cs] nxt_def by (rule suf)
  \<comment> \<open>second redirection: the successor's \<open>_prev\<close>, or \<open>_tail\<close>\<close>
  define h2 where "h2 = (case nxt of None \<Rightarrow> h1
                          | Some e \<Rightarrow> h1(e \<mapsto> (the (h1 e))\<lparr>node_prev := m\<rparr>))"
  define tail2 where "tail2 = (case nxt of None \<Rightarrow> m | Some e \<Rightarrow> dl_tail ?l)"
  have suf2: "dseg h2 m nxt cs tail2 None"
  proof (cases cs)
    case Nil
    with suf1 nxt show ?thesis by (simp add: h2_def tail2_def)
  next
    case (Cons e es)
    with nxt have ne: "nxt = Some e" by simp
    from suf1 Cons obtain nde where nde: "h1 e = Some nde" by (auto split: option.splits)
    from d Cons have "e \<notin> set es" by simp
    from dseg_set_prev_first [OF suf1 [unfolded Cons] this nde, of m] ne nde Cons
    show ?thesis by (simp add: h2_def tail2_def)
  qed
  have h2bs: "\<forall>a\<in>set bs. h2 a = h1 a"
  proof (cases "cs = []")
    case True
    with nxt show ?thesis by (simp add: h2_def)
  next
    case False
    then have "hd cs \<in> set cs" by simp
    with nxt d False have "nxt = Some (hd cs)" "hd cs \<notin> set bs"
      by (auto simp: disjoint_iff)
    then show ?thesis by (auto simp: h2_def)
  qed
  have pre2: "dseg h2 None head1 bs m nxt"
    unfolding dseg_cong [OF h2bs] by (rule pre1)
  from pre2 suf2 have seg': "dseg h2 None head1 (bs @ cs) tail2 None"
    unfolding dseg_append by blast
  define st' where "st' = st\<lparr>st_nodes := h2,
      st_lists := (st_lists st)(this :=
        ?l\<lparr>dl_head := head1, dl_tail := tail2, dl_size := dl_size ?l - 1\<rparr>)\<rparr>"
  have dom_m: "m \<noteq> None \<Longrightarrow> \<exists>b nd. m = Some b \<and> ?h b = Some nd"
    using m dseg_dom [OF pre, of "last bs"] by (cases "bs = []") auto
  have dom_n: "nxt \<noteq> None \<Longrightarrow> \<exists>e nd. nxt = Some e \<and> h1 e = Some nd"
    using nxt dseg_dom [OF suf1, of "hd cs"] by (cases "cs = []") auto
  have run: "unlink this (Some c) st = Inr st'"
  proof (cases m)
    case None
    show ?thesis
    proof (cases nxt)
      case nn: None
      with None ndc lk show ?thesis
        by (simp add: unlink_def deref_def Let_def this_upd_def st'_def h1_def h2_def
            head1_def tail2_def nxt_def [symmetric])
    next
      case (Some e)
      with dom_n obtain nd where "h1 e = Some nd" by auto
      with None Some ndc lk show ?thesis
        by (simp add: unlink_def deref_def Let_def this_upd_def st'_def h1_def h2_def
            head1_def tail2_def set_prev_def nxt_def [symmetric])
    qed
  next
    case (Some b)
    with dom_m obtain ndb where ndb: "?h b = Some ndb" by auto
    show ?thesis
    proof (cases nxt)
      case None
      with Some ndb ndc lk show ?thesis
        by (simp add: unlink_def deref_def Let_def this_upd_def st'_def h1_def h2_def
            head1_def tail2_def set_next_def nxt_def [symmetric])
    next
      case se: (Some e)
      with dom_n obtain nd where "h1 e = Some nd" by auto
      with Some se ndb ndc lk show ?thesis
        by (simp add: unlink_def deref_def Let_def this_upd_def st'_def h1_def h2_def
            head1_def tail2_def set_next_def set_prev_def nxt_def [symmetric])
    qed
  qed
  have other: "\<And>a. a \<notin> set bs \<Longrightarrow> a \<notin> set cs \<Longrightarrow> h2 a = ?h a"
  proof -
    fix a assume a: "a \<notin> set bs" "a \<notin> set cs"
    have "m \<noteq> Some a" using m a by (cases "bs = []") auto
    moreover have "nxt \<noteq> Some a" using nxt a by (cases "cs = []") auto
    ultimately show "h2 a = ?h a"
      by (auto simp: h2_def h1_def split: option.splits)
  qed
  have items: "\<And>a. a \<in> set as \<Longrightarrow>
      \<exists>nd'. h2 a = Some nd' \<and> node_item nd' = node_item (the (?h a))"
  proof -
    fix a assume "a \<in> set as"
    from dseg_dom [OF seg this] obtain nd where nd: "?h a = Some nd" by auto
    have "\<exists>nd1. h1 a = Some nd1 \<and> node_item nd1 = node_item nd"
      using nd by (auto simp: h1_def split: option.splits)
    then show "\<exists>nd'. h2 a = Some nd' \<and> node_item nd' = node_item (the (?h a))"
      using nd by (auto simp: h2_def split: option.splits)
  qed
  have "dlist_at st' this (bs @ cs)"
    using seg' sz dist fr as by (auto simp: dlist_at_def dlist_inv_def st'_def)
  moreover have "contents st' (bs @ cs) = contents st bs @ contents st cs"
    using items as by (fastforce simp: contents_def st'_def)
  moreover have "contents st bs = take k (contents st as)"
    "contents st cs = drop (Suc k) (contents st as)"
    by (simp_all add: contents_def bs_def cs_def take_map drop_map)
  moreover have "\<exists>nd'. st_nodes st' c = Some nd' \<and>
      node_item nd' = node_item (the (st_nodes st c))"
    using items [of c] as by (simp add: st'_def)
  moreover have "frame st this as st'"
    using other as by (auto simp: frame_def st'_def)
  ultimately show ?thesis using run
    by (auto simp: st'_def bs_def c_def cs_def)
qed

lemma insert_spec:
  fixes pos :: int and as :: "addr list"
  assumes at: "dlist_at st this as"
  defines "k \<equiv> spec_insert_index (int (length as)) pos"
  shows "\<exists>st'. DList_insert this pos x st = Inr st' \<and>
           dlist_at st' this (spec_insert k (st_fresh st) as) \<and>
           contents st' (spec_insert k (st_fresh st) as) = spec_insert k x (contents st as) \<and>
           st_fresh st' = Suc (st_fresh st) \<and>
           frame st this as st'"
proof -
  let ?l = "st_lists st this" and ?h = "st_nodes st" and ?n = "st_fresh st"
  from at have seg: "dseg ?h None (dl_head ?l) as (dl_tail ?l) None"
    and sz: "dl_size ?l = int (length as)" and dist: "distinct as"
    and fr: "\<forall>a\<in>set as. a < ?n"
    by (simp_all add: dlist_at_def dlist_inv_def)
  have kle: "k \<le> length as" by (auto simp: k_def spec_insert_index_def Let_def)
  show ?thesis
  proof (cases "k = length as")
    case True
    then have "DList_insert this pos x st = DList_append this x st"
      using sz by (auto simp: DList_insert_def Let_def k_def spec_insert_index_def
          split: if_splits)
    moreover from True have "spec_insert k ?n as = as @ [?n]"
      "spec_insert k x (contents st as) = contents st as @ [x]"
      by (simp_all add: spec_insert_def contents_def)
    ultimately show ?thesis using append_spec [OF at, of x] by simp
  next
    case False
    with kle have k: "k < length as" by simp
    define bs c cs where "bs = take k as" and "c = as ! k" and "cs = drop (Suc k) as"
    from k have as: "as = bs @ c # cs"
      by (simp add: bs_def c_def cs_def id_take_nth_drop)
    have ins: "spec_insert k ?n as = bs @ ?n # c # cs"
      using k by (simp add: spec_insert_def bs_def c_def cs_def Cons_nth_drop_Suc)
    from seg as obtain m ndc where
      pre: "dseg ?h None (dl_head ?l) bs m (Some c)" and
      ndc: "?h c = Some ndc" "node_prev ndc = m" and
      suf: "dseg ?h m (Some c) (c # cs) (dl_tail ?l) None"
      by (auto simp: dseg_append split: option.splits)
    have m: "m = (if bs = [] then None else Some (last bs))"
      using dseg_last [OF pre] .
    have lk: "lock st m = m"
    proof (cases "bs = []")
      case True
      with m show ?thesis by (simp add: lock_def)
    next
      case False
      then have "last bs \<in> set bs" by simp
      from dseg_dom [OF pre this] m False show ?thesis by (auto simp: lock_def)
    qed
    from dist as fr have d: "distinct bs" "distinct cs" "c \<notin> set bs" "c \<notin> set cs"
      "set bs \<inter> set cs = {}" "?n \<notin> set bs" "?n \<notin> set cs" "?n \<noteq> c" by auto
    \<comment> \<open>the position after normalisation\<close>
    define p3 where "p3 = int k"
    have norm: "(let sz = dl_size ?l;
                    p1 = (if pos < 0 then pos + sz else pos);
                    p2 = (if p1 < 0 then 0 else p1)
                in (if p2 > sz then sz else p2)) = p3"
      using sz by (auto simp: p3_def k_def spec_insert_index_def Let_def)
    have fnd: "DList_find this p3 st = Inr (Some c)"
      using find_spec [OF at, of p3] k by (simp add: p3_def c_def)
    \<comment> \<open>the new node\<close>
    define h1 where "h1 = ?h(?n \<mapsto> \<lparr>node_item = x, node_next = Some c, node_prev = m\<rparr>)"
    define h2 where "h2 = (case m of None \<Rightarrow> h1
                          | Some b \<Rightarrow> h1(b \<mapsto> (the (h1 b))\<lparr>node_next := Some ?n\<rparr>))"
    define head2 where "head2 = (case m of None \<Rightarrow> Some ?n | Some b \<Rightarrow> dl_head ?l)"
    define h3 where "h3 = h2(c \<mapsto> (the (h2 c))\<lparr>node_prev := Some ?n\<rparr>)"
    have h1bs: "\<forall>a\<in>set bs. h1 a = ?h a" using d by (auto simp: h1_def)
    have pre1: "dseg h1 None (dl_head ?l) bs m (Some c)"
      unfolding dseg_cong [OF h1bs] by (rule pre)
    have pre2: "dseg h2 None head2 bs m (Some ?n)"
    proof (cases bs rule: rev_cases)
      case Nil
      with pre1 m show ?thesis by (simp add: h2_def head2_def)
    next
      case (snoc bs' b)
      with m have mb: "m = Some b" by simp
      from pre1 snoc obtain ndb where ndb: "h1 b = Some ndb" by (auto simp: dseg_snoc)
      from d snoc have "b \<notin> set bs'" by simp
      from dseg_set_next_last [OF pre1 [unfolded snoc] this ndb, of "Some ?n"] mb ndb snoc
      show ?thesis by (simp add: h2_def head2_def)
    qed
    have h3bs: "\<forall>a\<in>set bs. h3 a = h2 a" using d by (auto simp: h3_def)
    have pre3: "dseg h3 None head2 bs m (Some ?n)"
      unfolding dseg_cong [OF h3bs] by (rule pre2)
    have mnot: "m \<noteq> Some c" "m \<noteq> Some ?n" "\<forall>a\<in>set cs. m \<noteq> Some a"
    proof -
      have "m = None \<or> (\<exists>b\<in>set bs. m = Some b)"
        using m by (cases "bs = []") auto
      with d show "m \<noteq> Some c" "m \<noteq> Some ?n" "\<forall>a\<in>set cs. m \<noteq> Some a"
        by (auto simp: disjoint_iff)
    qed
    have h2c: "\<forall>a\<in>set (c # cs). h2 a = ?h a"
      using d mnot by (auto simp: h2_def h1_def split: option.splits)
    have suf2: "dseg h2 m (Some c) (c # cs) (dl_tail ?l) None"
      unfolding dseg_cong [OF h2c] by (rule suf)
    have h2c': "h2 c = Some ndc" using h2c ndc by simp
    have suf3: "dseg h3 (Some ?n) (Some c) (c # cs) (dl_tail ?l) None"
      using dseg_set_prev_first [OF suf2 d(4) h2c', of "Some ?n"] h2c'
      by (simp add: h3_def)
    have h3n: "h3 ?n = Some \<lparr>node_item = x, node_next = Some c, node_prev = m\<rparr>"
      using d mnot by (auto simp: h3_def h2_def h1_def split: option.splits)
    from suf3 h3n have "dseg h3 m (Some ?n) (?n # c # cs) (dl_tail ?l) None"
      by simp
    with pre3 have seg': "dseg h3 None head2 (bs @ ?n # c # cs) (dl_tail ?l) None"
      unfolding dseg_append by blast
    define st' where "st' = st\<lparr>st_nodes := h3,
        st_lists := (st_lists st)(this := ?l\<lparr>dl_head := head2, dl_size := dl_size ?l + 1\<rparr>),
        st_fresh := Suc ?n\<rparr>"
    have dom_m: "m \<noteq> None \<Longrightarrow> \<exists>b nd. m = Some b \<and> ?h b = Some nd \<and> b \<noteq> ?n"
    proof -
      assume "m \<noteq> None"
      with m have ne: "bs \<noteq> []" "m = Some (last bs)" by (auto split: if_splits)
      then have mem: "last bs \<in> set bs" by simp
      with d have "last bs \<noteq> ?n" by metis
      with dseg_dom [OF pre mem] ne show ?thesis by auto
    qed
    have szne: "dl_size ?l \<noteq> 0" "p3 \<noteq> dl_size ?l" using sz k by (auto simp: p3_def)
    have run: "DList_insert this pos x st = Inr st'"
    proof (cases m)
      case None
      with ndc lk fnd szne d show ?thesis
        unfolding DList_insert_def norm [unfolded Let_def] Let_def
        by (simp add: deref_def make_shared_def this_upd_def set_prev_def st'_def
            h1_def h2_def h3_def head2_def)
    next
      case (Some b)
      with dom_m obtain ndb where ndb: "?h b = Some ndb" "b \<noteq> ?n" by auto
      from Some mnot have "b \<noteq> c" by simp
      with Some ndb ndc lk fnd szne d show ?thesis
        unfolding DList_insert_def norm [unfolded Let_def] Let_def
        by (simp add: deref_def make_shared_def this_upd_def set_next_def set_prev_def
            st'_def h1_def h2_def h3_def head2_def)
    qed
    have other: "\<And>a. a \<notin> set as \<Longrightarrow> a \<noteq> ?n \<Longrightarrow> h3 a = ?h a"
    proof -
      fix a assume a: "a \<notin> set as" "a \<noteq> ?n"
      have "m \<noteq> Some a" using m a as by (cases "bs = []") auto
      with a as show "h3 a = ?h a"
        by (auto simp: h3_def h2_def h1_def split: option.splits)
    qed
    have items: "\<And>a. a \<in> set as \<Longrightarrow>
        \<exists>nd'. h3 a = Some nd' \<and> node_item nd' = node_item (the (?h a))"
    proof -
      fix a assume a: "a \<in> set as"
      from dseg_dom [OF seg this] obtain nd where nd: "?h a = Some nd" by auto
      from a fr have "a \<noteq> ?n" by auto
      then have "h1 a = Some nd" using nd by (simp add: h1_def)
      then have "\<exists>nd2. h2 a = Some nd2 \<and> node_item nd2 = node_item nd"
        by (auto simp: h2_def split: option.splits)
      then show "\<exists>nd'. h3 a = Some nd' \<and> node_item nd' = node_item (the (?h a))"
        using nd by (auto simp: h3_def)
    qed
    have "dlist_at st' this (bs @ ?n # c # cs)"
      using seg' sz dist fr as d by (auto simp: dlist_at_def dlist_inv_def st'_def less_Suc_eq)
    moreover have "contents st' (bs @ ?n # c # cs) = contents st bs @ x # contents st (c # cs)"
      using items as h3n by (fastforce simp: contents_def st'_def)
    moreover have "contents st bs = take k (contents st as)"
      "contents st (c # cs) = drop k (contents st as)"
      using k by (simp_all add: contents_def bs_def cs_def c_def take_map drop_map
          Cons_nth_drop_Suc)
    moreover have "frame st this as st'"
      using other by (auto simp: frame_def st'_def)
    ultimately show ?thesis using run ins
      by (simp add: st'_def spec_insert_def)
  qed
qed

subsection \<open>\<open>_delete\<close>, \<open>remove\<close>, \<open>clear\<close> and \<open>operator[]\<close>\<close>

lemma dseg_cong_links:
  "\<forall>a\<in>set as. map_option (\<lambda>n. (node_next n, node_prev n)) (h' a) =
                map_option (\<lambda>n. (node_next n, node_prev n)) (h a) \<Longrightarrow>
   dseg h' pv p as lst q = dseg h pv p as lst q"
proof (induction as arbitrary: pv p)
  case Nil
  then show ?case by simp
next
  case (Cons a as)
  from Cons.prems have a: "map_option (\<lambda>n. (node_next n, node_prev n)) (h' a) =
      map_option (\<lambda>n. (node_next n, node_prev n)) (h a)" by simp
  from Cons.prems have IH: "\<And>pv p. dseg h' pv p as lst q = dseg h pv p as lst q"
    by (intro Cons.IH) simp
  from a show ?case
    by (cases "h a"; cases "h' a") (auto simp: IH)
qed

lemma contents_nth:
  "i < length as \<Longrightarrow> contents st as ! i = node_item (the (st_nodes st (as ! i)))"
  by (simp add: contents_def)

lemma length_contents [simp]: "length (contents st as) = length as"
  by (simp add: contents_def)

lemma delete_spec_in_range:
  fixes pos :: int and as :: "addr list"
  assumes at: "dlist_at st this as"
  defines "p \<equiv> (if pos < 0 then pos + int (length as) else pos)"
  assumes rng: "0 \<le> p" "p < int (length as)"
  shows "\<exists>st'. DList_delete dflt this pos st = Inr (contents st as ! nat p, st') \<and>
           dlist_at st' this (spec_delete (nat p) as) \<and>
           contents st' (spec_delete (nat p) as) = spec_delete (nat p) (contents st as) \<and>
           st_fresh st' = st_fresh st \<and>
           frame st this as st'"
proof -
  from at have sz: "dl_size (st_lists st this) = int (length as)"
    by (simp add: dlist_at_def dlist_inv_def)
  from rng have k: "nat p < length as" by simp
  have fnd: "DList_find this p st = Inr (Some (as ! nat p))"
    using find_spec [OF at, of p] rng by simp
  from unlink_spec [OF at k] obtain st' nd' where
    u: "unlink this (Some (as ! nat p)) st = Inr st'"
       "dlist_at st' this (take (nat p) as @ drop (Suc (nat p)) as)"
       "contents st' (take (nat p) as @ drop (Suc (nat p)) as) =
          take (nat p) (contents st as) @ drop (Suc (nat p)) (contents st as)"
       "st_nodes st' (as ! nat p) = Some nd'"
       "node_item nd' = node_item (the (st_nodes st (as ! nat p)))"
       "st_fresh st' = st_fresh st" "frame st this as st'"
    by blast
  have "DList_delete dflt this pos st = Inr (node_item nd', st')"
    using sz rng fnd u(1,4) by (simp add: DList_delete_def Let_def p_def deref_def)
  with u k show ?thesis
    by (simp add: spec_delete_def contents_nth)
qed

lemma delete_spec_out_of_range:
  fixes pos :: int and as :: "addr list"
  assumes at: "dlist_at st this as"
  defines "p \<equiv> (if pos < 0 then pos + int (length as) else pos)"
  assumes rng: "p < 0 \<or> int (length as) \<le> p"
  shows "DList_delete dflt this pos st = Inr (dflt, st)"
proof -
  from at have sz: "dl_size (st_lists st this) = int (length as)"
    by (simp add: dlist_at_def dlist_inv_def)
  with rng show ?thesis
    by (auto simp: DList_delete_def Let_def p_def)
qed

lemma remove_loop_no_match:
  "dseg (st_nodes st) pv p cs lst None \<Longrightarrow>
   \<forall>a\<in>set cs. \<not> eq (node_item (the (st_nodes st a))) x \<Longrightarrow>
   remove_loop eq this x p st = Some (Inr st)"
proof (induction cs arbitrary: pv p)
  case Nil
  then show ?case by (subst remove_loop.simps) simp
next
  case (Cons c cs)
  from Cons.prems(1) obtain nd where nd: "p = Some c" "st_nodes st c = Some nd"
    "dseg (st_nodes st) (Some c) (node_next nd) cs lst None"
    by (auto split: option.splits)
  from Cons.prems(2) nd have ne: "\<not> eq (node_item nd) x" by auto
  from Cons.prems(2) have "\<forall>a\<in>set cs. \<not> eq (node_item (the (st_nodes st a))) x" by simp
  from Cons.IH [OF nd(3) this] nd ne show ?case
    by (subst remove_loop.simps) simp
qed

lemma remove_loop_match:
  "dseg (st_nodes st) pv p cs lst None \<Longrightarrow> j < length cs \<Longrightarrow>
   eq (node_item (the (st_nodes st (cs ! j)))) x \<Longrightarrow>
   \<forall>i<j. \<not> eq (node_item (the (st_nodes st (cs ! i)))) x \<Longrightarrow>
   remove_loop eq this x p st = Some (unlink this (Some (cs ! j)) st)"
proof (induction cs arbitrary: pv p j)
  case Nil
  then show ?case by simp
next
  case (Cons c cs)
  from Cons.prems(1) obtain nd where nd: "p = Some c" "st_nodes st c = Some nd"
    "dseg (st_nodes st) (Some c) (node_next nd) cs lst None"
    by (auto split: option.splits)
  show ?case
  proof (cases j)
    case 0
    with Cons.prems nd show ?thesis
      by (subst remove_loop.simps) simp
  next
    case (Suc j')
    with Cons.prems(4) [rule_format, of 0] nd have ne: "\<not> eq (node_item nd) x" by simp
    from Suc Cons.prems have j': "j' < length cs"
      "eq (node_item (the (st_nodes st (cs ! j')))) x" by simp_all
    have "\<forall>i<j'. \<not> eq (node_item (the (st_nodes st (cs ! i)))) x"
    proof (intro allI impI)
      fix i assume "i < j'"
      with Suc Cons.prems(4) [rule_format, of "Suc i"]
      show "\<not> eq (node_item (the (st_nodes st (cs ! i)))) x" by simp
    qed
    from Cons.IH [OF nd(3) j' this] nd ne Suc show ?thesis
      by (subst remove_loop.simps) simp
  qed
qed

lemma first_index:
  "\<exists>e\<in>set xs. P e \<Longrightarrow> \<exists>j<length xs. P (xs ! j) \<and> (\<forall>i<j. \<not> P (xs ! i))"
proof (induction xs)
  case Nil
  then show ?case by simp
next
  case (Cons y ys)
  show ?case
  proof (cases "P y")
    case True
    then have "0 < length (y # ys) \<and> P ((y # ys) ! 0) \<and> (\<forall>i<0. \<not> P ((y # ys) ! i))"
      by simp
    then show ?thesis by blast
  next
    case False
    with Cons.prems have "\<exists>e\<in>set ys. P e" by simp
    from Cons.IH [OF this] obtain j where j: "j < length ys" "P (ys ! j)"
      "\<forall>i<j. \<not> P (ys ! i)" by blast
    have "\<forall>i<Suc j. \<not> P ((y # ys) ! i)"
    proof (intro allI impI)
      fix i assume "i < Suc j"
      with j(3) False show "\<not> P ((y # ys) ! i)" by (cases i) auto
    qed
    with j have "Suc j < length (y # ys) \<and> P ((y # ys) ! Suc j) \<and>
        (\<forall>i<Suc j. \<not> P ((y # ys) ! i))"
      by simp
    then show ?thesis by blast
  qed
qed

lemma remove1_at_first_index:
  "j < length xs \<Longrightarrow> xs ! j = x \<Longrightarrow> \<forall>i<j. xs ! i \<noteq> x \<Longrightarrow>
   remove1 x xs = spec_delete j xs"
proof (induction xs arbitrary: j)
  case Nil
  then show ?case by simp
next
  case (Cons y ys)
  show ?case
  proof (cases j)
    case 0
    with Cons.prems show ?thesis by (simp add: spec_delete_def)
  next
    case (Suc j')
    with Cons.prems(3) [rule_format, of 0] have ne: "y \<noteq> x" by simp
    from Suc Cons.prems have j': "j' < length ys" "ys ! j' = x" by simp_all
    have "\<forall>i<j'. ys ! i \<noteq> x"
    proof (intro allI impI)
      fix i assume "i < j'"
      with Suc Cons.prems(3) [rule_format, of "Suc i"] show "ys ! i \<noteq> x" by simp
    qed
    from Cons.IH [OF j' this] ne Suc show ?thesis
      by (simp add: spec_delete_def)
  qed
qed

lemma remove_spec_present:
  assumes at: "dlist_at st this as" and mem: "\<exists>e\<in>set (contents st as). eq e x"
  shows "\<exists>st' j. DList_remove eq this x st = Some (Inr st') \<and>
           j < length as \<and> eq (contents st as ! j) x \<and>
           (\<forall>i<j. \<not> eq (contents st as ! i) x) \<and>
           dlist_at st' this (spec_delete j as) \<and>
           contents st' (spec_delete j as) = spec_delete j (contents st as) \<and>
           st_fresh st' = st_fresh st \<and>
           frame st this as st'"
proof -
  from at have seg: "dseg (st_nodes st) None (dl_head (st_lists st this)) as
      (dl_tail (st_lists st this)) None"
    by (simp add: dlist_at_def dlist_inv_def)
  from first_index [of "contents st as" "\<lambda>e. eq e x", OF mem]
  obtain j where j: "j < length as" "eq (contents st as ! j) x"
    "\<forall>i<j. \<not> eq (contents st as ! i) x" by auto
  have "\<forall>i<j. \<not> eq (node_item (the (st_nodes st (as ! i)))) x"
    using j(1,3) by (auto simp: contents_nth)
  with remove_loop_match [OF seg j(1), of eq x this] j(1,2)
  have run: "DList_remove eq this x st = Some (unlink this (Some (as ! j)) st)"
    by (simp add: DList_remove_def contents_nth)
  from unlink_spec [OF at j(1)] obtain st' where
    u: "unlink this (Some (as ! j)) st = Inr st'"
       "dlist_at st' this (take j as @ drop (Suc j) as)"
       "contents st' (take j as @ drop (Suc j) as) =
          take j (contents st as) @ drop (Suc j) (contents st as)"
       "st_fresh st' = st_fresh st" "frame st this as st'"
    by blast
  from run u j show ?thesis
    by (intro exI [of _ st'] exI [of _ j]) (simp add: spec_delete_def)
qed

lemma remove_spec_absent:
  assumes at: "dlist_at st this as" and mem: "\<forall>e\<in>set (contents st as). \<not> eq e x"
  shows "DList_remove eq this x st = Some (Inr st)"
proof -
  from at have seg: "dseg (st_nodes st) None (dl_head (st_lists st this)) as
      (dl_tail (st_lists st this)) None"
    by (simp add: dlist_at_def dlist_inv_def)
  from mem have "\<forall>a\<in>set as. \<not> eq (node_item (the (st_nodes st a))) x"
    by (auto simp: contents_def)
  from remove_loop_no_match [where eq = eq and x = x, OF seg this] show ?thesis
    by (simp add: DList_remove_def)
qed

lemma clear_spec:
  "dlist_at (DList_clear this st) this [] \<and> frame st this as (DList_clear this st) \<and>
   st_fresh (DList_clear this st) = st_fresh st \<and>
   st_nodes (DList_clear this st) = st_nodes st"
  by (simp add: DList_clear_def this_upd_def dlist_at_def dlist_inv_def frame_def)

lemma get_spec:
  fixes pos :: int and as :: "addr list"
  assumes at: "dlist_at st this as"
  shows "DList_get this pos st =
           (if pos \<ge> int (length as) \<or> pos < - int (length as) then Inl NullDeref
            else Inr (contents st as ! nat (if pos < 0 then pos + int (length as) else pos)))"
proof -
  from at have seg: "dseg (st_nodes st) None (dl_head (st_lists st this)) as
      (dl_tail (st_lists st this)) None"
    by (simp add: dlist_at_def dlist_inv_def)
  have dom: "\<And>i. i < length as \<Longrightarrow> \<exists>nd. st_nodes st (as ! i) = Some nd"
    using dseg_dom [OF seg] by simp
  show ?thesis
  proof (cases "pos \<ge> int (length as) \<or> pos < - int (length as)")
    case True
    with find_spec [OF at, of pos] show ?thesis
      by (simp add: DList_get_def deref_def)
  next
    case False
    define i where "i = nat (if pos < 0 then pos + int (length as) else pos)"
    from False have i: "i < length as" by (auto simp: i_def)
    from find_spec [OF at, of pos] False have "DList_find this pos st = Inr (Some (as ! i))"
      by (auto simp: i_def add.commute)
    with dom [OF i] i False show ?thesis
      by (auto simp: DList_get_def deref_def contents_nth i_def)
  qed
qed

lemma set_spec:
  fixes pos :: int and as :: "addr list"
  assumes at: "dlist_at st this as"
    and rng: "- int (length as) \<le> pos" "pos < int (length as)"
  defines "i \<equiv> nat (if pos < 0 then pos + int (length as) else pos)"
  shows "\<exists>st'. DList_set this pos v st = Inr st' \<and>
           dlist_at st' this as \<and>
           contents st' as = (contents st as)[i := v] \<and>
           st_fresh st' = st_fresh st \<and> st_lists st' = st_lists st \<and>
           (\<forall>a. a \<noteq> as ! i \<longrightarrow> st_nodes st' a = st_nodes st a) \<and>
           frame st this as st'"
proof -
  let ?h = "st_nodes st"
  from at have seg: "dseg ?h None (dl_head (st_lists st this)) as
      (dl_tail (st_lists st this)) None" and dist: "distinct as"
    by (simp_all add: dlist_at_def dlist_inv_def)
  from rng have i: "i < length as" by (auto simp: i_def)
  from dseg_dom [OF seg, of "as ! i"] i obtain nd where nd: "?h (as ! i) = Some nd"
    by auto
  from find_spec [OF at, of pos] rng have fnd: "DList_find this pos st = Inr (Some (as ! i))"
    by (auto simp: i_def add.commute)
  define st' where "st' = st\<lparr>st_nodes := ?h(as ! i \<mapsto> nd\<lparr>node_item := v\<rparr>)\<rparr>"
  have run: "DList_set this pos v st = Inr st'"
    using fnd nd by (simp add: DList_set_def DList_ref_def set_item_def st'_def)
  have "\<forall>a\<in>set as. map_option (\<lambda>n. (node_next n, node_prev n)) (st_nodes st' a) =
                map_option (\<lambda>n. (node_next n, node_prev n)) (?h a)"
    using nd by (auto simp: st'_def)
  from dseg_cong_links [OF this] seg
  have "dseg (st_nodes st') None (dl_head (st_lists st this)) as
      (dl_tail (st_lists st this)) None" by simp
  with at have "dlist_at st' this as"
    by (simp add: dlist_at_def dlist_inv_def st'_def)
  moreover have "contents st' as = (contents st as)[i := v]"
  proof (rule nth_equalityI)
    show "length (contents st' as) = length ((contents st as)[i := v])" by simp
  next
    fix j assume "j < length (contents st' as)"
    then have j: "j < length as" by simp
    with i dist have "as ! j = as ! i \<longleftrightarrow> j = i" by (simp add: nth_eq_iff_index_eq)
    with j i nd show "contents st' as ! j = (contents st as)[i := v] ! j"
      by (auto simp: contents_nth nth_list_update st'_def)
  qed
  moreover have "frame st this as st'"
    using i by (auto simp: frame_def st'_def)
  ultimately show ?thesis using run by (auto simp: st'_def)
qed

subsection \<open>Framing, \<open>extend\<close> and \<open>_copy\<close>\<close>

lemma dlist_atD:
  assumes "dlist_at st this as"
  shows "dseg (st_nodes st) None (dl_head (st_lists st this)) as
           (dl_tail (st_lists st this)) None"
    and "dl_size (st_lists st this) = int (length as)"
    and "distinct as"
    and "\<And>a. a \<in> set as \<Longrightarrow> a < st_fresh st"
    and "\<And>a. a \<in> set as \<Longrightarrow> \<exists>nd. st_nodes st a = Some nd"
proof -
  from assms show seg: "dseg (st_nodes st) None (dl_head (st_lists st this)) as
      (dl_tail (st_lists st this)) None"
    and "dl_size (st_lists st this) = int (length as)" and "distinct as"
    and "\<And>a. a \<in> set as \<Longrightarrow> a < st_fresh st"
    by (simp_all add: dlist_at_def dlist_inv_def)
  show "\<And>a. a \<in> set as \<Longrightarrow> \<exists>nd. st_nodes st a = Some nd"
    using dseg_dom [OF seg] .
qed

lemma frame_refl: "frame st this as st"
  by (simp add: frame_def)

lemma frame_trans:
  assumes "frame st this as st1" and "frame st1 this as1 st2"
    and "\<forall>a\<in>set as1. a \<in> set as \<or> st_fresh st \<le> a"
  shows "frame st this as st2"
proof -
  from assms(1,2) have le: "st_fresh st \<le> st_fresh st1" "st_fresh st1 \<le> st_fresh st2"
    by (simp_all add: frame_def)
  have "st_nodes st2 a = st_nodes st a" if a: "a < st_fresh st" "a \<notin> set as" for a
  proof -
    from a assms(3) have "a \<notin> set as1" by auto
    moreover from a le have "a < st_fresh st1" by simp
    ultimately have "st_nodes st2 a = st_nodes st1 a"
      using assms(2) by (simp add: frame_def)
    with a assms(1) show ?thesis by (simp add: frame_def)
  qed
  with le assms(1,2) show ?thesis by (simp add: frame_def)
qed

lemma frame_nodes:
  assumes "frame st this as st'" and "\<forall>a\<in>set bs. a < st_fresh st \<and> a \<notin> set as"
  shows "\<forall>a\<in>set bs. st_nodes st' a = st_nodes st a"
  using assms by (auto simp: frame_def)

lemma frame_contents:
  assumes "frame st this as st'" and "\<forall>a\<in>set bs. a < st_fresh st \<and> a \<notin> set as"
  shows "contents st' bs = contents st bs"
  using frame_nodes [OF assms] by (simp add: contents_def)

lemma frame_other:
  assumes fr: "frame st this as st'" and at: "dlist_at st other bs"
    and ne: "other \<noteq> this" and disj: "set bs \<inter> set as = {}"
  shows "dlist_at st' other bs" and "contents st' bs = contents st bs"
proof -
  have bs: "\<forall>a\<in>set bs. a < st_fresh st \<and> a \<notin> set as"
    using dlist_atD(4) [OF at] disj by auto
  from frame_nodes [OF fr bs] have "\<forall>a\<in>set bs. st_nodes st' a = st_nodes st a" .
  from dseg_cong [OF this] dlist_atD(1) [OF at]
  have "dseg (st_nodes st') None (dl_head (st_lists st other)) bs
      (dl_tail (st_lists st other)) None" by simp
  moreover from fr ne have "st_lists st' other = st_lists st other"
    by (simp add: frame_def)
  moreover from fr have "st_fresh st \<le> st_fresh st'" by (simp add: frame_def)
  ultimately show "dlist_at st' other bs"
    using at by (auto simp: dlist_at_def dlist_inv_def)
  show "contents st' bs = contents st bs"
    by (rule frame_contents [OF fr bs])
qed

lemma upt_snoc_Cons: "n # [Suc n..<Suc n + k] = [n..<n + Suc k]"
  by (simp add: upt_rec)

lemma extend_loop_spec:
  "dlist_at st this as \<Longrightarrow> dseg (st_nodes st) pv p cs lst None \<Longrightarrow>
   set cs \<inter> set as = {} \<Longrightarrow> \<forall>a\<in>set cs. a < st_fresh st \<Longrightarrow>
   \<exists>st'. extend_loop this p st = Some (Inr st') \<and>
     dlist_at st' this (as @ [st_fresh st..<st_fresh st + length cs]) \<and>
     contents st' (as @ [st_fresh st..<st_fresh st + length cs]) =
       contents st as @ contents st cs \<and>
     st_fresh st' = st_fresh st + length cs \<and>
     frame st this as st'"
proof (induction cs arbitrary: st as pv p)
  case Nil
  then show ?case
    by (subst extend_loop.simps) (simp add: contents_def frame_refl)
next
  case (Cons c cs)
  let ?n = "st_fresh st"
  from Cons.prems(2) obtain nd where nd: "p = Some c" "st_nodes st c = Some nd"
    "dseg (st_nodes st) (Some c) (node_next nd) cs lst None"
    by (auto split: option.splits)
  from append_spec [OF Cons.prems(1), of "node_item nd"] obtain st1 where
    a: "DList_append this (node_item nd) st = Inr st1"
       "dlist_at st1 this (as @ [?n])"
       "contents st1 (as @ [?n]) = contents st as @ [node_item nd]"
       "st_fresh st1 = Suc ?n" "frame st this as st1"
    by blast
  have old: "\<forall>a\<in>set (c # cs). a < st_fresh st \<and> a \<notin> set as"
    using Cons.prems(3,4) by auto
  from frame_nodes [OF a(5) old] have same: "\<forall>a\<in>set (c # cs). st_nodes st1 a = st_nodes st a" .
  then have same': "\<forall>a\<in>set cs. st_nodes st1 a = st_nodes st a" by simp
  have seg1: "dseg (st_nodes st1) (Some c) (node_next nd) cs lst None"
    unfolding dseg_cong [OF same'] by (rule nd(3))
  have disj1: "set cs \<inter> set (as @ [?n]) = {}"
    using Cons.prems(3,4) by auto
  have fr1: "\<forall>a\<in>set cs. a < st_fresh st1"
    using Cons.prems(4) a(4) by auto
  from Cons.IH [OF a(2) seg1 disj1 fr1] obtain st' where
    r: "extend_loop this (node_next nd) st1 = Some (Inr st')"
       "dlist_at st' this ((as @ [?n]) @ [st_fresh st1..<st_fresh st1 + length cs])"
       "contents st' ((as @ [?n]) @ [st_fresh st1..<st_fresh st1 + length cs]) =
          contents st1 (as @ [?n]) @ contents st1 cs"
       "st_fresh st' = st_fresh st1 + length cs" "frame st1 this (as @ [?n]) st'"
    by blast
  have chain: "(as @ [?n]) @ [st_fresh st1..<st_fresh st1 + length cs] =
      as @ [?n..<?n + length (c # cs)]"
    using a(4) upt_snoc_Cons [of ?n "length cs"] by simp
  have c1: "contents st1 cs = contents st cs"
    using same' by (simp add: contents_def)
  have cc: "contents st (c # cs) = node_item nd # contents st cs"
    using nd(2) by (simp add: contents_def)
  have run: "extend_loop this p st = Some (Inr st')"
    using nd a(1) same r(1) by (subst extend_loop.simps) simp
  have fr': "frame st this as st'"
    by (rule frame_trans [OF a(5) r(5)]) auto
  have at': "dlist_at st' this (as @ [?n..<?n + length (c # cs)])"
    using r(2) unfolding chain .
  have "contents st' (as @ [?n..<?n + length (c # cs)]) =
      contents st1 (as @ [?n]) @ contents st1 cs"
    using r(3) unfolding chain .
  also have "\<dots> = contents st as @ contents st (c # cs)"
    unfolding a(3) c1 cc by simp
  finally have co': "contents st' (as @ [?n..<?n + length (c # cs)]) =
      contents st as @ contents st (c # cs)" .
  have "st_fresh st' = ?n + length (c # cs)" using r(4) a(4) by simp
  with run at' co' fr' show ?case by blast
qed

lemma contents_append: "contents st (as @ bs) = contents st as @ contents st bs"
  by (simp add: contents_def)

lemma contents_sub:
  "contents st' zs = contents st zs \<Longrightarrow> set cs \<subseteq> set zs \<Longrightarrow> contents st' cs = contents st cs"
  by (auto simp: contents_def)

lemma extend_self_loop_spec:
  "dlist_at st this zs \<Longrightarrow> zs = bs @ cs \<Longrightarrow> k \<le> length cs \<Longrightarrow>
   node = (if cs = [] then None else Some (hd cs)) \<Longrightarrow>
   \<exists>st'. extend_self_loop this k node st = Inr st' \<and>
     dlist_at st' this (zs @ [st_fresh st..<st_fresh st + k]) \<and>
     contents st' (zs @ [st_fresh st..<st_fresh st + k]) =
       contents st zs @ take k (contents st cs) \<and>
     st_fresh st' = st_fresh st + k \<and>
     frame st this zs st'"
proof (induction k arbitrary: st zs bs cs node)
  case 0
  then show ?case by (simp add: frame_refl)
next
  case (Suc k)
  let ?n = "st_fresh st"
  from Suc.prems(3) obtain c cs' where cs: "cs = c # cs'" by (cases cs) auto
  with Suc.prems have node: "node = Some c" and zs: "zs = bs @ c # cs'" by simp_all
  from dlist_atD(5) [OF Suc.prems(1), of c] zs obtain nd where nd: "st_nodes st c = Some nd"
    by auto
  from append_spec [OF Suc.prems(1), of "node_item nd"] obtain st1 where
    a: "DList_append this (node_item nd) st = Inr st1"
       "dlist_at st1 this (zs @ [?n])"
       "contents st1 (zs @ [?n]) = contents st zs @ [node_item nd]"
       "st_fresh st1 = Suc ?n" "frame st this zs st1"
    by blast
  have idx: "(zs @ [?n]) ! length bs = c" "Suc (length bs) < length (zs @ [?n])"
    "(zs @ [?n]) ! Suc (length bs) = hd (cs' @ [?n])"
    using zs by (auto simp: nth_append hd_append nth_Cons' hd_conv_nth)
  from dseg_nth [OF dlist_atD(1) [OF a(2)], of "length bs"] idx zs
  obtain nd1 where nd1: "st_nodes st1 c = Some nd1"
    "node_next nd1 = Some (hd (cs' @ [?n]))"
    by auto
  have zs1: "zs @ [?n] = (bs @ [c]) @ (cs' @ [?n])" using zs by simp
  from Suc.prems(3) cs have k: "k \<le> length (cs' @ [?n])" by simp
  have node1: "node_next nd1 = (if cs' @ [?n] = [] then None else Some (hd (cs' @ [?n])))"
    using nd1 by simp
  from Suc.IH [OF a(2) zs1 k node1] obtain st' where
    r: "extend_self_loop this k (node_next nd1) st1 = Inr st'"
       "dlist_at st' this ((zs @ [?n]) @ [st_fresh st1..<st_fresh st1 + k])"
       "contents st' ((zs @ [?n]) @ [st_fresh st1..<st_fresh st1 + k]) =
          contents st1 (zs @ [?n]) @ take k (contents st1 (cs' @ [?n]))"
       "st_fresh st' = st_fresh st1 + k" "frame st1 this (zs @ [?n]) st'"
    by blast
  have chain: "(zs @ [?n]) @ [st_fresh st1..<st_fresh st1 + k] = zs @ [?n..<?n + Suc k]"
    using a(4) upt_snoc_Cons [of ?n k] by simp
  from a(3) have "contents st1 zs = contents st zs" by (simp add: contents_append)
  from contents_sub [OF this, of cs'] zs have c1: "contents st1 cs' = contents st cs'"
    by auto
  from Suc.prems(3) cs have "k \<le> length cs'" by simp
  then have tk: "take k (contents st1 (cs' @ [?n])) = take k (contents st cs')"
    using c1 by (simp add: contents_append)
  have cc: "take (Suc k) (contents st cs) = node_item nd # take k (contents st cs')"
    using cs nd by (simp add: contents_def)
  have run: "extend_self_loop this (Suc k) node st = Inr st'"
    using node nd a(1) nd1 r(1) by (simp add: deref_def)
  have fr': "frame st this zs st'"
    by (rule frame_trans [OF a(5) r(5)]) auto
  have at': "dlist_at st' this (zs @ [?n..<?n + Suc k])"
    using r(2) unfolding chain .
  have "contents st' (zs @ [?n..<?n + Suc k]) =
      contents st1 (zs @ [?n]) @ take k (contents st1 (cs' @ [?n]))"
    using r(3) unfolding chain .
  also have "\<dots> = contents st zs @ take (Suc k) (contents st cs)"
    unfolding a(3) tk cc by simp
  finally have co': "contents st' (zs @ [?n..<?n + Suc k]) =
      contents st zs @ take (Suc k) (contents st cs)" .
  have "st_fresh st' = ?n + Suc k" using r(4) a(4) by simp
  with run at' co' fr' show ?case by blast
qed

lemma extend_other_spec:
  assumes at: "dlist_at st this as" and ot: "dlist_at st other bs"
    and ne: "other \<noteq> this" and disj: "set as \<inter> set bs = {}"
  shows "\<exists>st'. DList_extend this other st = Some (Inr st') \<and>
     dlist_at st' this (as @ [st_fresh st..<st_fresh st + length bs]) \<and>
     contents st' (as @ [st_fresh st..<st_fresh st + length bs]) =
       contents st as @ contents st bs \<and>
     st_fresh st' = st_fresh st + length bs \<and>
     frame st this as st'"
proof -
  have "set bs \<inter> set as = {}" using disj by auto
  moreover have "\<forall>a\<in>set bs. a < st_fresh st" using dlist_atD(4) [OF ot] by simp
  ultimately show ?thesis
    using extend_loop_spec [OF at dlist_atD(1) [OF ot]] ne
    by (simp add: DList_extend_def)
qed

lemma extend_self_spec:
  assumes at: "dlist_at st this as"
  shows "\<exists>st'. DList_extend this this st = Some (Inr st') \<and>
     dlist_at st' this (as @ [st_fresh st..<st_fresh st + length as]) \<and>
     contents st' (as @ [st_fresh st..<st_fresh st + length as]) =
       contents st as @ contents st as \<and>
     st_fresh st' = st_fresh st + length as \<and>
     frame st this as st'"
proof -
  have hd: "dl_head (st_lists st this) = (if as = [] then None else Some (hd as))"
    using dseg_hd [OF dlist_atD(1) [OF at]] .
  from extend_self_loop_spec [OF at, of "[]" as "length as", OF _ _ hd]
    dlist_atD(2) [OF at]
  show ?thesis by (simp add: DList_extend_def)
qed

lemma copy_loop_spec:
  "dseg (st_nodes st) spv sp cs slst None \<Longrightarrow> \<forall>a\<in>set cs. a < n0 \<Longrightarrow>
   dseg (st_nodes st) None (Some n0) [n0..<st_fresh st] newNode None \<Longrightarrow>
   n0 < st_fresh st \<Longrightarrow>
   \<exists>st' t. copy_loop sp newNode st = Some (Inr (Some t, st')) \<and>
     dseg (st_nodes st') None (Some n0) [n0..<st_fresh st'] (Some t) None \<and>
     st_fresh st' = st_fresh st + length cs \<and>
     contents st' [n0..<st_fresh st'] = contents st [n0..<st_fresh st] @ contents st cs \<and>
     st_lists st' = st_lists st \<and>
     (\<forall>a. a < n0 \<longrightarrow> st_nodes st' a = st_nodes st a)"
proof (induction cs arbitrary: st spv sp newNode)
  case Nil
  from Nil.prems(4) have "[n0..<st_fresh st] \<noteq> []" by simp
  with dseg_last [OF Nil.prems(3)] have "newNode = Some (last [n0..<st_fresh st])" by simp
  with Nil.prems show ?case
    by (subst copy_loop.simps) (simp add: contents_def)
next
  case (Cons c cs)
  let ?h = "st_nodes st" and ?n = "st_fresh st"
  from Cons.prems(1) obtain src where src: "sp = Some c" "?h c = Some src"
    "dseg ?h (Some c) (node_next src) cs slst None"
    by (auto split: option.splits)
  from Cons.prems(4) obtain t where t: "?n = Suc t" "n0 \<le> t"
    by (cases ?n) auto
  then have news: "[n0..<?n] = [n0..<t] @ [t]" by simp
  from Cons.prems(3) news obtain ndt where ndt: "newNode = Some t" "?h t = Some ndt"
    by (auto simp: dseg_snoc)
  from Cons.prems(2) t Cons.prems(4) have cn: "c < n0" "c \<noteq> ?n" "c \<noteq> t" by auto
  define h2 where "h2 = ?h(?n \<mapsto> \<lparr>node_item = node_item src, node_next = None,
      node_prev = Some t\<rparr>, t \<mapsto> ndt\<lparr>node_next := Some ?n\<rparr>)"
  define st2 where "st2 = st\<lparr>st_fresh := Suc ?n, st_nodes := h2\<rparr>"
  have low: "\<forall>a. a < n0 \<longrightarrow> h2 a = ?h a"
    using t Cons.prems(4) by (auto simp: h2_def)
  have step: "copy_loop sp newNode st = copy_loop (node_next src) (Some ?n) st2"
    using src ndt cn t
    by (subst copy_loop.simps)
      (simp add: make_shared_def set_next_def deref_def st2_def h2_def)
  have same: "\<forall>a\<in>set cs. h2 a = ?h a" using low Cons.prems(2) by simp
  have seg2: "dseg (st_nodes st2) (Some c) (node_next src) cs slst None"
    unfolding st2_def using src(3) dseg_cong [OF same] by simp
  have lt: "\<forall>a\<in>set cs. a < n0" using Cons.prems(2) by simp
  have tn: "t \<notin> set [n0..<t]" by simp
  have "dseg (?h(t \<mapsto> ndt\<lparr>node_next := Some ?n\<rparr>)) None (Some n0) ([n0..<t] @ [t])
      newNode (Some ?n)"
    using dseg_set_next_last [OF Cons.prems(3) [unfolded news] tn ndt(2)] .
  moreover have "\<forall>a\<in>set ([n0..<t] @ [t]). h2 a = (?h(t \<mapsto> ndt\<lparr>node_next := Some ?n\<rparr>)) a"
    using t by (auto simp: h2_def)
  ultimately have "dseg h2 None (Some n0) ([n0..<t] @ [t]) newNode (Some ?n)"
    by (simp only: dseg_cong)
  moreover have "dseg h2 newNode (Some ?n) [?n] (Some ?n) None"
    using ndt t by (simp add: h2_def)
  ultimately have "dseg h2 None (Some n0) (([n0..<t] @ [t]) @ [?n]) (Some ?n) None"
    unfolding dseg_append by blast
  moreover have "([n0..<t] @ [t]) @ [?n] = [n0..<Suc ?n]" using t by simp
  ultimately have new2: "dseg (st_nodes st2) None (Some n0) [n0..<st_fresh st2] (Some ?n) None"
    by (simp add: st2_def)
  have n2: "n0 < st_fresh st2" using Cons.prems(4) by (simp add: st2_def)
  from Cons.IH [OF seg2 lt new2 n2] obtain st' t' where
    r: "copy_loop (node_next src) (Some ?n) st2 = Some (Inr (Some t', st'))"
       "dseg (st_nodes st') None (Some n0) [n0..<st_fresh st'] (Some t') None"
       "st_fresh st' = st_fresh st2 + length cs"
       "contents st' [n0..<st_fresh st'] = contents st2 [n0..<st_fresh st2] @ contents st2 cs"
       "st_lists st' = st_lists st2"
       "\<forall>a. a < n0 \<longrightarrow> st_nodes st' a = st_nodes st2 a"
    by blast
  have c2: "contents st2 cs = contents st cs"
    using same by (simp add: contents_def st2_def)
  have "contents st2 [n0..<st_fresh st2] = contents st2 ([n0..<?n] @ [?n])"
    using Cons.prems(4) by (simp add: st2_def)
  also have "\<dots> = contents st [n0..<?n] @ [node_item src]"
    using t ndt by (auto simp: contents_def st2_def h2_def)
  finally have c3: "contents st2 [n0..<st_fresh st2] =
      contents st [n0..<?n] @ [node_item src]" .
  have cc: "contents st (c # cs) = node_item src # contents st cs"
    using src(2) by (simp add: contents_def)
  have "contents st' [n0..<st_fresh st'] = contents st [n0..<?n] @ contents st (c # cs)"
    unfolding r(4) c2 c3 cc by simp
  moreover have "st_fresh st' = ?n + length (c # cs)" using r(3) by (simp add: st2_def)
  moreover have "st_lists st' = st_lists st" using r(5) by (simp add: st2_def)
  moreover have "\<forall>a. a < n0 \<longrightarrow> st_nodes st' a = st_nodes st a"
    using r(6) low by (simp add: st2_def)
  ultimately show ?case using step r(1,2) by auto
qed

lemma copy_spec:
  assumes src: "dlist_at st source bs" and ne: "this \<noteq> source"
  shows "\<exists>st'. DList_copy this source st = Some (Inr st') \<and>
     dlist_at st' this [st_fresh st..<st_fresh st + length bs] \<and>
     contents st' [st_fresh st..<st_fresh st + length bs] = contents st bs \<and>
     st_fresh st' = st_fresh st + length bs \<and>
     frame st this [] st'"
proof (cases bs)
  case Nil
  with dlist_atD(1,2) [OF src] ne show ?thesis
    by (simp add: DList_copy_def this_upd_def dlist_at_def dlist_inv_def contents_def
        frame_def)
next
  case (Cons c cs)
  let ?h = "st_nodes st" and ?n = "st_fresh st"
  from dlist_atD(1) [OF src] Cons obtain nd where nd:
    "dl_head (st_lists st source) = Some c" "?h c = Some nd"
    "dseg ?h (Some c) (node_next nd) cs (dl_tail (st_lists st source)) None"
    by (auto split: option.splits)
  have old: "\<forall>a\<in>set (c # cs). a < ?n" using dlist_atD(4) [OF src] Cons by simp
  define st2 where "st2 = st\<lparr>st_nodes := ?h(?n \<mapsto> \<lparr>node_item = node_item nd,
        node_next = None, node_prev = None\<rparr>),
      st_fresh := Suc ?n,
      st_lists := (st_lists st)(this := (st_lists st this)\<lparr>dl_head := Some ?n\<rparr>)\<rparr>"
  have same: "\<forall>a\<in>set cs. st_nodes st2 a = ?h a" using old by (auto simp: st2_def)
  have seg2: "dseg (st_nodes st2) (Some c) (node_next nd) cs
      (dl_tail (st_lists st source)) None"
    unfolding dseg_cong [OF same] by (rule nd(3))
  have lt: "\<forall>a\<in>set cs. a < ?n" using old by simp
  have new2: "dseg (st_nodes st2) None (Some ?n) [?n..<st_fresh st2] (Some ?n) None"
    by (simp add: st2_def)
  have n2: "?n < st_fresh st2" by (simp add: st2_def)
  from copy_loop_spec [OF seg2 lt new2 n2] obtain st3 t where
    r: "copy_loop (node_next nd) (Some ?n) st2 = Some (Inr (Some t, st3))"
       "dseg (st_nodes st3) None (Some ?n) [?n..<st_fresh st3] (Some t) None"
       "st_fresh st3 = st_fresh st2 + length cs"
       "contents st3 [?n..<st_fresh st3] = contents st2 [?n..<st_fresh st2] @ contents st2 cs"
       "st_lists st3 = st_lists st2"
       "\<forall>a. a < ?n \<longrightarrow> st_nodes st3 a = st_nodes st2 a"
    by blast
  define st' where "st' = st3\<lparr>st_lists := (st_lists st3)(this :=
      (st_lists st3 this)\<lparr>dl_tail := Some t, dl_size := dl_size (st_lists st source)\<rparr>)\<rparr>"
  have cn: "c \<noteq> ?n" using old by auto
  have run: "DList_copy this source st = Some (Inr st')"
    using nd cn r(1,5) ne
    by (simp add: DList_copy_def Let_def make_shared_def this_upd_def st2_def [symmetric]
        st'_def)
      (simp add: st2_def)
  have f3: "st_fresh st3 = ?n + length bs" using r(3) Cons by (simp add: st2_def)
  have "dlist_at st' this [?n..<?n + length bs]"
    using r(2,5) f3 dlist_atD(2) [OF src]
    by (simp add: dlist_at_def dlist_inv_def st'_def st2_def)
  moreover have "contents st2 cs = contents st cs"
    using same by (simp add: contents_def)
  then have "contents st' [?n..<?n + length bs] = contents st bs"
    using r(4) f3 nd(2) Cons
    by (simp add: st'_def contents_def st2_def)
  moreover have "frame st this [] st'"
    using r(5,6) f3 by (auto simp: frame_def st'_def st2_def)
  ultimately show ?thesis using run f3 by (simp add: st'_def)
qed

section \<open>The invariant of reachable stores\<close>

lemma next_chain_dseg:
  "dseg h pv p as lst None \<Longrightarrow> next_chain h (length as) p = as"
  by (induction as arbitrary: pv p) (auto split: option.splits)

lemma cells_eq: "dlist_at st this as \<Longrightarrow> cells st this = as"
  using next_chain_dseg [OF dlist_atD(1)] dlist_atD(2)
  by (fastforce simp: cells_def)

lemma well_formedI: "dlist_at st this as \<Longrightarrow> well_formed st this"
  using cells_eq by (fastforce simp: well_formed_def)

lemma well_formedD: "well_formed st this \<Longrightarrow> dlist_at st this (cells st this)"
  by (simp add: well_formed_def)

lemma elems_eq: "dlist_at st this as \<Longrightarrow> elems st this = contents st as"
  using cells_eq by (fastforce simp: elems_def)

lemma length_eq: "dlist_at st this as \<Longrightarrow> DList_length this st = int (length as)"
  by (simp add: DList_length_def dlist_atD(2))

lemma length_elems: "well_formed st this \<Longrightarrow> DList_length this st = int (length (elems st this))"
  by (simp add: elems_def length_eq [OF well_formedD])

lemma frame_weaken: "frame st this as st' \<Longrightarrow> set as \<subseteq> set bs \<Longrightarrow> frame st this bs st'"
  by (auto simp: frame_def)

lemma store_inv_step:
  assumes inv: "store_inv st" and at': "dlist_at st' this as'"
    and fr: "frame st this (cells st this) st'"
    and new: "\<forall>a\<in>set as'. a \<in> set (cells st this) \<or> st_fresh st \<le> a"
  shows "store_inv st'"
proof -
  from inv have wf: "\<And>l. dlist_at st l (cells st l)"
    and sep: "\<And>l l'. l \<noteq> l' \<Longrightarrow> set (cells st l) \<inter> set (cells st l') = {}"
    by (simp_all add: store_inv_def well_formed_def separate_def)
  have this': "cells st' this = as'" by (rule cells_eq [OF at'])
  have other: "dlist_at st' l (cells st l)" if "l \<noteq> this" for l
    using frame_other(1) [OF fr wf that] sep [OF that] by simp
  have other': "cells st' l = cells st l" if "l \<noteq> this" for l
    by (rule cells_eq [OF other [OF that]])
  have w: "well_formed st' l" for l
    by (cases "l = this") (auto intro: well_formedI at' other)
  have s: "separate st' l l'" if ne: "l \<noteq> l'" for l l'
  proof -
    have key: "set as' \<inter> set (cells st m) = {}" if m: "m \<noteq> this" for m
    proof -
      have "a \<notin> set (cells st m)" if a: "a \<in> set as'" for a
      proof
        assume am: "a \<in> set (cells st m)"
        from dlist_atD(4) [OF wf am] have "a < st_fresh st" .
        with new a have "a \<in> set (cells st this)" by auto
        with am sep [OF m] show False by auto
      qed
      then show ?thesis by auto
    qed
    show ?thesis
    proof (cases "l = this")
      case True
      with ne have "l' \<noteq> this" by simp
      with True this' other' key show ?thesis by (simp add: separate_def)
    next
      case False
      show ?thesis
      proof (cases "l' = this")
        case True
        with False this' other' key [of l] show ?thesis
          by (auto simp: separate_def)
      next
        case l': False
        with False other' sep [OF ne] show ?thesis by (simp add: separate_def)
      qed
    qed
  qed
  from w s show ?thesis by (simp add: store_inv_def)
qed

lemma store_inv_init: "store_inv (init_store :: 'a store)"
  by (simp add: store_inv_def well_formed_def separate_def cells_def init_store_def
      DList_ctor_def dlist_at_def dlist_inv_def)

lemma set_spec_insert: "set (spec_insert k x xs) = insert x (set xs)"
proof -
  have "set (take k xs) \<union> set (drop k xs) = set xs"
    by (metis append_take_drop_id set_append)
  then show ?thesis by (auto simp: spec_insert_def)
qed

lemma set_spec_delete: "set (spec_delete k xs) \<subseteq> set xs"
  by (auto simp: spec_delete_def dest: in_set_takeD in_set_dropD)

lemma store_invD: "store_inv st \<Longrightarrow> dlist_at st l (cells st l)"
  by (simp add: store_inv_def well_formed_def)

lemma inv_append:
  assumes inv: "store_inv st" and run: "DList_append this x st = Inr st'"
  shows "store_inv st'"
proof -
  from append_spec [OF store_invD [OF inv], of this x] run
  have "dlist_at st' this (cells st this @ [st_fresh st])"
    "frame st this (cells st this) st'" by auto
  then show ?thesis by (rule store_inv_step [OF inv]) simp
qed

lemma inv_insert:
  assumes inv: "store_inv st" and run: "DList_insert this position x st = Inr st'"
  shows "store_inv st'"
proof -
  define k where "k = spec_insert_index (int (length (cells st this))) position"
  from insert_spec [OF store_invD [OF inv], of this position x] run
  have "dlist_at st' this (spec_insert k (st_fresh st) (cells st this))"
    "frame st this (cells st this) st'" by (auto simp: k_def)
  then show ?thesis
    by (rule store_inv_step [OF inv]) (simp add: set_spec_insert)
qed

lemma inv_pop:
  assumes inv: "store_inv st" and run: "DList_pop dflt this position st = Inr (v, st')"
  shows "store_inv st'"
proof -
  note at = store_invD [OF inv, of this]
  define p where "p = (if position < 0 then position + int (length (cells st this))
    else position)"
  show ?thesis
  proof (cases "0 \<le> p \<and> p < int (length (cells st this))")
    case True
    then have "0 \<le> p" "p < int (length (cells st this))" by simp_all
    from delete_spec_in_range [OF at this [unfolded p_def], of dflt, folded p_def]
    obtain st2 where d: "DList_delete dflt this position st =
        Inr (contents st (cells st this) ! nat p, st2)"
      "dlist_at st2 this (spec_delete (nat p) (cells st this))"
      "frame st this (cells st this) st2" by blast
    from d(1) run have "st2 = st'" by (simp add: DList_pop_def)
    with d(2,3) have "dlist_at st' this (spec_delete (nat p) (cells st this))"
      "frame st this (cells st this) st'" by simp_all
    moreover have "\<forall>a\<in>set (spec_delete (nat p) (cells st this)).
        a \<in> set (cells st this) \<or> st_fresh st \<le> a"
      using set_spec_delete [of "nat p" "cells st this"] by blast
    ultimately show ?thesis
      by (rule store_inv_step [OF inv])
  next
    case False
    then have "p < 0 \<or> int (length (cells st this)) \<le> p" by auto
    from delete_spec_out_of_range [OF at this [unfolded p_def], of dflt] run
    have "st' = st" by (simp add: DList_pop_def)
    with inv show ?thesis by simp
  qed
qed

lemma inv_remove:
  assumes inv: "store_inv st" and run: "DList_remove eq this x st = Some (Inr st')"
  shows "store_inv st'"
proof (cases "\<exists>e\<in>set (contents st (cells st this)). eq e x")
  case True
  from remove_spec_present [where eq = eq and x = x, OF store_invD [OF inv] True] run
  obtain j where "dlist_at st' this (spec_delete j (cells st this))"
    "frame st this (cells st this) st'" by auto
  moreover have "\<forall>a\<in>set (spec_delete j (cells st this)).
      a \<in> set (cells st this) \<or> st_fresh st \<le> a"
    using set_spec_delete [of j "cells st this"] by blast
  ultimately show ?thesis by (rule store_inv_step [OF inv])
next
  case False
  then have "\<forall>e\<in>set (contents st (cells st this)). \<not> eq e x" by simp
  from remove_spec_absent [where eq = eq and x = x, OF store_invD [OF inv] this] run inv
  show ?thesis
    by simp
qed

lemma inv_clear:
  assumes inv: "store_inv st"
  shows "store_inv (DList_clear this st)"
proof -
  from clear_spec [of this st "cells st this"]
  have "dlist_at (DList_clear this st) this []"
    "frame st this (cells st this) (DList_clear this st)" by simp_all
  then show ?thesis by (rule store_inv_step [OF inv]) simp
qed

lemma inv_extend:
  assumes inv: "store_inv st" and run: "DList_extend this other st = Some (Inr st')"
  shows "store_inv st'"
proof -
  note at = store_invD [OF inv, of this] and ot = store_invD [OF inv, of other]
  have "\<exists>n. dlist_at st' this (cells st this @ [st_fresh st..<n]) \<and>
      frame st this (cells st this) st'"
  proof (cases "other = this")
    case True
    with extend_self_spec [OF at] run show ?thesis by auto
  next
    case False
    with inv have "set (cells st this) \<inter> set (cells st other) = {}"
      by (auto simp: store_inv_def separate_def)
    from extend_other_spec [OF at ot False this] run show ?thesis by auto
  qed
  then obtain n where "dlist_at st' this (cells st this @ [st_fresh st..<n])"
    "frame st this (cells st this) st'" by blast
  then show ?thesis by (rule store_inv_step [OF inv]) auto
qed

lemma inv_copy:
  assumes inv: "store_inv st" and ne: "this \<noteq> source"
    and run: "DList_copy this source st = Some (Inr st')"
  shows "store_inv st'"
proof -
  from copy_spec [OF store_invD [OF inv] ne] run
  have "dlist_at st' this [st_fresh st..<st_fresh st + length (cells st source)]"
    "frame st this [] st'" by auto
  from this(1) frame_weaken [OF this(2), of "cells st this"] show ?thesis
    by (intro store_inv_step [OF inv]) auto
qed

lemma inv_assign:
  assumes inv: "store_inv st" and run: "DList_assign this source st = Some (Inr st')"
  shows "store_inv st'"
proof (cases "this = source")
  case True
  with run inv show ?thesis by (simp add: DList_assign_def)
next
  case False
  with run have "DList_copy this source (DList_clear this st) = Some (Inr st')"
    by (simp add: DList_assign_def)
  from inv_copy [OF inv_clear [OF inv] False this] show ?thesis .
qed

lemma inv_set:
  assumes inv: "store_inv st" and run: "DList_set this position v st = Inr st'"
  shows "store_inv st'"
proof -
  note at = store_invD [OF inv, of this]
  let ?n = "int (length (cells st this))"
  have rng: "- ?n \<le> position \<and> position < ?n"
  proof (rule ccontr)
    assume "\<not> ?thesis"
    with find_spec [OF at, of position] have "DList_find this position st = Inr None"
      by auto
    with run show False by (simp add: DList_set_def DList_ref_def)
  qed
  then have "- ?n \<le> position" "position < ?n" by simp_all
  from set_spec [OF at this, of v] run
  have "dlist_at st' this (cells st this)" "frame st this (cells st this) st'" by auto
  then show ?thesis by (rule store_inv_step [OF inv]) simp
qed

lemma reachable_store_inv: "reachable st \<Longrightarrow> store_inv st"
proof (induction rule: reachable.induct)
  case r_init
  show ?case by (rule store_inv_init)
next
  case (r_append st this x st')
  then show ?case by (blast intro: inv_append)
next
  case (r_insert st this position x st')
  then show ?case by (blast intro: inv_insert)
next
  case (r_pop st dflt this position v st')
  then show ?case by (blast intro: inv_pop)
next
  case (r_remove st eq this x st')
  then show ?case by (blast intro: inv_remove)
next
  case (r_clear st this)
  then show ?case by (blast intro: inv_clear)
next
  case (r_extend st this other st')
  then show ?case by (blast intro: inv_extend)
next
  case (r_copy st this source st')
  then show ?case unfolding DList_copy_ctor_def by (blast intro: inv_copy)
next
  case (r_assign st this source st')
  then show ?case by (blast intro: inv_assign)
next
  case (r_set st this position v st')
  then show ?case by (blast intro: inv_set)
qed

text \<open>
  The hypotheses of the statements below hold in every reachable store: each list
  object is well formed, and two different list objects share no node.
\<close>

lemma reachable_well_formed:
  assumes "reachable st"
  shows "well_formed st l" and "l \<noteq> l' \<Longrightarrow> separate st l l'"
  using reachable_store_inv [OF assms] by (simp_all add: store_inv_def)

section \<open>Structure of every reachable list\<close>

lemma dseg_fwd: "dseg h pv p as lst None \<Longrightarrow> fwd_traversal h p as"
  by (induction as arbitrary: pv p) (auto split: option.splits)

lemma dseg_bwd: "dseg h None p as lst q \<Longrightarrow> bwd_traversal h lst (rev as)"
proof (induction as arbitrary: lst q rule: rev_induct)
  case Nil
  then show ?case by simp
next
  case (snoc a as)
  from snoc.prems obtain nd where "lst = Some a" "h a = Some nd"
    "dseg h None p as (node_prev nd) (Some a)"
    by (auto simp: dseg_snoc)
  with snoc.IH [of "node_prev nd" "Some a"] show ?case by simp
qed

lemma dseg_adjacent:
  assumes seg: "dseg h None p as lst None" and dist: "distinct as"
    and a: "a \<in> set as" and b: "b \<in> set as"
  shows "(node_next (the (h a)) = Some b) = (node_prev (the (h b)) = Some a)"
proof -
  from a b obtain i j where i: "i < length as" "as ! i = a" and j: "j < length as" "as ! j = b"
    by (auto simp: in_set_conv_nth)
  from dseg_nth [OF seg i(1)] i(2)
  have nx: "node_next (the (h a)) = (if Suc i < length as then Some (as ! Suc i) else None)"
    by auto
  from dseg_nth [OF seg j(1)] j(2)
  have pv: "node_prev (the (h b)) = (if j = 0 then None else Some (as ! (j - 1)))"
    by auto
  have "(node_next (the (h a)) = Some b) \<longleftrightarrow> j = Suc i"
    using nx i j dist by (auto simp: nth_eq_iff_index_eq)
  moreover have "(node_prev (the (h b)) = Some a) \<longleftrightarrow> j = Suc i"
    using pv i j dist by (auto simp: nth_eq_iff_index_eq)
  ultimately show ?thesis by simp
qed

lemma ex_store_cells: "cells ex_store 0 = [0, 1, 2]" "cells ex_store 1 = [3]"
  by (simp_all add: cells_def ex_store_def numeral_3_eq_3)

text \<open>
  C1. In every store reachable from the default-constructed lists by calls of
  \<open>append\<close>, \<open>insert\<close>, \<open>pop\<close>, \<open>remove\<close>, \<open>clear\<close>, \<open>extend\<close>, the copy
  constructor, assignment and element assignment, every list object satisfies:
  \<open>_size\<close> is zero iff \<open>_head\<close> is null iff \<open>_tail\<close> is null; \<open>_size\<close> steps along
  \<open>_next\<close> from \<open>_head\<close> reach null and \<open>_size - 1\<close> steps reach \<open>_tail\<close>; for nodes
  \<open>a\<close>, \<open>b\<close> of the chain, \<open>a\<close>'s \<open>_next\<close> is \<open>b\<close> iff \<open>b\<close>'s \<open>_prev\<close> is \<open>a\<close>;
  and \<open>length()\<close> is the number of nodes of the forward traversal from \<open>_head\<close> and
  of the backward traversal from \<open>_tail\<close>, which visit the same nodes in opposite order.
\<close>

theorem structural_invariant:
  assumes "reachable st"
  shows "((dl_size (st_lists st this) = 0) = (dl_head (st_lists st this) = None)) \<and>
         ((dl_head (st_lists st this) = None) = (dl_tail (st_lists st this) = None)) \<and>
         walk_next st (nat (dl_size (st_lists st this))) (dl_head (st_lists st this)) =
           Inr None \<and>
         (0 < dl_size (st_lists st this) \<longrightarrow>
            walk_next st (nat (dl_size (st_lists st this) - 1)) (dl_head (st_lists st this)) =
              Inr (dl_tail (st_lists st this))) \<and>
         (\<forall>a\<in>set (cells st this). \<forall>b\<in>set (cells st this).
            (node_next (the (st_nodes st a)) = Some b) =
            (node_prev (the (st_nodes st b)) = Some a)) \<and>
         fwd_traversal (st_nodes st) (dl_head (st_lists st this)) (cells st this) \<and>
         bwd_traversal (st_nodes st) (dl_tail (st_lists st this)) (rev (cells st this)) \<and>
         DList_length this st = int (length (cells st this))"
proof -
  let ?l = "st_lists st this" and ?as = "cells st this"
  note at = store_invD [OF reachable_store_inv [OF assms], of this]
  note seg = dlist_atD(1) [OF at] and sz = dlist_atD(2) [OF at] and dist = dlist_atD(3) [OF at]
  have hd: "dl_head ?l = (if ?as = [] then None else Some (hd ?as))"
    using dseg_hd [OF seg] .
  have tl: "dl_tail ?l = (if ?as = [] then None else Some (last ?as))"
    using dseg_last [OF seg] .
  have 1: "(dl_size ?l = 0) = (dl_head ?l = None)" using hd sz by simp
  have 2: "(dl_head ?l = None) = (dl_tail ?l = None)" using hd tl by simp
  have 3: "walk_next st (nat (dl_size ?l)) (dl_head ?l) = Inr None"
    using walk_next_dseg [OF seg, of "length ?as"] sz by simp
  have 4: "walk_next st (nat (dl_size ?l - 1)) (dl_head ?l) = Inr (dl_tail ?l)"
    if "0 < dl_size ?l"
  proof -
    from that sz have ne: "?as \<noteq> []" by auto
    then have "nat (dl_size ?l - 1) = length ?as - 1" "length ?as - 1 < length ?as"
      using sz by auto
    with walk_next_dseg [OF seg, of "length ?as - 1"] tl ne show ?thesis
      by (simp add: last_conv_nth)
  qed
  have 5: "\<forall>a\<in>set ?as. \<forall>b\<in>set ?as.
      (node_next (the (st_nodes st a)) = Some b) = (node_prev (the (st_nodes st b)) = Some a)"
    using dseg_adjacent [OF seg dist] by blast
  have 6: "fwd_traversal (st_nodes st) (dl_head ?l) ?as" by (rule dseg_fwd [OF seg])
  have 7: "bwd_traversal (st_nodes st) (dl_tail ?l) (rev ?as)" by (rule dseg_bwd [OF seg])
  have 8: "DList_length this st = int (length ?as)" by (rule length_eq [OF at])
  from 1 2 3 4 5 6 7 8 show ?thesis by blast
qed

lemma ex_store_reachable: "reachable ex_store"
proof -
  have 1: "DList_append 0 10 (init_store :: int store) =
      Inr \<lparr>st_nodes = [0 \<mapsto> \<lparr>node_item = 10, node_next = None, node_prev = None\<rparr>],
           st_lists = (\<lambda>_. DList_ctor)(0 := \<lparr>dl_head = Some 0, dl_tail = Some 0, dl_size = 1\<rparr>),
           st_fresh = 1\<rparr>" (is "_ = Inr ?s1")
    by (simp add: DList_append_def make_shared_def this_upd_def init_store_def DList_ctor_def)
  have 2: "DList_append 0 20 ?s1 =
      Inr \<lparr>st_nodes = [0 \<mapsto> \<lparr>node_item = 10, node_next = Some 1, node_prev = None\<rparr>,
                       1 \<mapsto> \<lparr>node_item = 20, node_next = None, node_prev = Some 0\<rparr>],
           st_lists = (\<lambda>_. DList_ctor)(0 := \<lparr>dl_head = Some 0, dl_tail = Some 1, dl_size = 2\<rparr>),
           st_fresh = 2\<rparr>" (is "_ = Inr ?s2")
    by (simp add: DList_append_def make_shared_def this_upd_def set_next_def set_prev_def
        fun_upd_twist)
  have 3: "DList_append 0 30 ?s2 =
      Inr \<lparr>st_nodes = [0 \<mapsto> \<lparr>node_item = 10, node_next = Some 1, node_prev = None\<rparr>,
                       1 \<mapsto> \<lparr>node_item = 20, node_next = Some 2, node_prev = Some 0\<rparr>,
                       2 \<mapsto> \<lparr>node_item = 30, node_next = None, node_prev = Some 1\<rparr>],
           st_lists = (\<lambda>_. DList_ctor)(0 := \<lparr>dl_head = Some 0, dl_tail = Some 2, dl_size = 3\<rparr>),
           st_fresh = 3\<rparr>" (is "_ = Inr ?s3")
    by (simp add: DList_append_def make_shared_def this_upd_def set_next_def set_prev_def
        fun_upd_twist)
  have 4: "DList_append 1 7 ?s3 = Inr ex_store"
    by (simp add: DList_append_def make_shared_def this_upd_def DList_ctor_def ex_store_def
        fun_upd_twist)
  from r_append [OF r_append [OF r_append [OF r_append [OF r_init 1] 2] 3] 4]
  show ?thesis .
qed

theorem structural_invariant_witness:
  "reachable ex_store \<and>
   walk_next ex_store 3 (Some 0) = Inr None \<and>
   walk_next ex_store 2 (Some 0) = Inr (Some 2) \<and>
   fwd_traversal (st_nodes ex_store) (Some 0) [0, 1, 2] \<and>
   bwd_traversal (st_nodes ex_store) (Some 2) [2, 1, 0] \<and>
   DList_length 0 ex_store = 3"
  using structural_invariant [OF ex_store_reachable, of 0] ex_store_reachable
  by (simp add: ex_store_cells) (simp add: ex_store_def)

section \<open>Indexing, insertion and deletion\<close>

lemma ex_store_cells_Suc: "cells ex_store (Suc 0) = [3]"
  using ex_store_cells(2) by simp

lemma ex_store_wf: "well_formed ex_store 0" "well_formed ex_store 1"
  by (simp_all add: well_formed_def ex_store_cells ex_store_cells_Suc dlist_at_def
      dlist_inv_def)
    (simp_all add: ex_store_def)

lemma ex_store_elems: "elems ex_store 0 = [10, 20, 30]" "elems ex_store 1 = [7]"
  by (simp_all add: elems_def ex_store_cells ex_store_cells_Suc contents_def)
    (simp_all add: ex_store_def)

lemma ex_store_length: "DList_length 0 ex_store = 3" "DList_length 1 ex_store = 1"
  by (simp_all add: DList_length_def ex_store_def)

lemma appends_spec:
  "dlist_at st this as \<Longrightarrow>
   \<exists>st'. appends this vs st = Inr st' \<and>
     dlist_at st' this (as @ [st_fresh st..<st_fresh st + length vs]) \<and>
     contents st' (as @ [st_fresh st..<st_fresh st + length vs]) = contents st as @ vs"
proof (induction vs arbitrary: st as)
  case Nil
  then show ?case by (simp add: contents_def)
next
  case (Cons v vs)
  let ?n = "st_fresh st"
  from append_spec [OF Cons.prems, of v] obtain st1 where
    a: "DList_append this v st = Inr st1" "dlist_at st1 this (as @ [?n])"
       "contents st1 (as @ [?n]) = contents st as @ [v]" "st_fresh st1 = Suc ?n"
    by blast
  from Cons.IH [OF a(2)] obtain st' where
    r: "appends this vs st1 = Inr st'"
       "dlist_at st' this ((as @ [?n]) @ [st_fresh st1..<st_fresh st1 + length vs])"
       "contents st' ((as @ [?n]) @ [st_fresh st1..<st_fresh st1 + length vs]) =
          contents st1 (as @ [?n]) @ vs"
    by blast
  have chain: "(as @ [?n]) @ [st_fresh st1..<st_fresh st1 + length vs] =
      as @ [?n..<?n + length (v # vs)]"
    using a(4) upt_snoc_Cons [of ?n "length vs"] by simp
  have "appends this (v # vs) st = Inr st'" using a(1) r(1) by simp
  moreover have "dlist_at st' this (as @ [?n..<?n + length (v # vs)])"
    using r(2) unfolding chain .
  moreover have "contents st' (as @ [?n..<?n + length (v # vs)]) = contents st as @ v # vs"
    using r(3) unfolding chain a(3) by simp
  ultimately show ?case by blast
qed

text \<open>
  C2. A list built from a default-constructed list object by appending \<open>vs\<close> has
  length \<open>n = length vs\<close>, and for every \<open>i < n\<close> both \<open>operator[](i)\<close> and
  \<open>operator[](i - n)\<close> return \<open>vs ! i\<close>.
\<close>

theorem index_round_trip:
  assumes "st_lists st this = DList_ctor"
  shows "\<exists>st'. appends this vs st = Inr st' \<and>
           DList_length this st' = int (length vs) \<and>
           (\<forall>i<length vs.
              DList_get this (int i) st' = Inr (vs ! i) \<and>
              DList_get this (int i - int (length vs)) st' = Inr (vs ! i))"
proof -
  from assms have "dlist_at st this []"
    by (simp add: dlist_at_def dlist_inv_def DList_ctor_def)
  from appends_spec [OF this, of vs] obtain st' as where
    r: "appends this vs st = Inr st'" "dlist_at st' this as" "contents st' as = vs"
    by (auto simp: contents_def)
  from r(3) have len: "length as = length vs" by (metis length_contents)
  have "DList_get this (int i) st' = Inr (vs ! i) \<and>
        DList_get this (int i - int (length vs)) st' = Inr (vs ! i)" if "i < length vs" for i
    using that get_spec [OF r(2), of "int i"] get_spec [OF r(2), of "int i - int (length vs)"]
      r(3) len by simp
  with r(1) length_eq [OF r(2)] len show ?thesis by auto
qed

theorem index_round_trip_witness:
  "st_lists (init_store :: int store) 0 = DList_ctor \<and>
   (\<exists>st'. appends 0 [10, 20, 30] (init_store :: int store) = Inr st' \<and>
      DList_length 0 st' = 3 \<and>
      DList_get 0 1 st' = Inr 20 \<and> DList_get 0 (- 2) st' = Inr 20)"
proof -
  have h: "st_lists (init_store :: int store) 0 = DList_ctor" by (simp add: init_store_def)
  from index_round_trip [OF h, of "[10, 20, 30]"] obtain st' where
    r: "appends 0 [10, 20, 30] (init_store :: int store) = Inr st'"
       "DList_length 0 st' = int (length [10, 20, 30 :: int])"
       "\<forall>i<length [10, 20, 30 :: int].
          DList_get 0 (int i) st' = Inr ([10, 20, 30] ! i) \<and>
          DList_get 0 (int i - int (length [10, 20, 30 :: int])) st' = Inr ([10, 20, 30] ! i)"
    by blast
  from r(3) [rule_format, of 1] have "DList_get 0 1 st' = Inr 20"
    "DList_get 0 (- 2) st' = Inr 20" by simp_all
  with h r(1,2) show ?thesis by simp
qed

text \<open>
  C3. On a well-formed list \<open>insert(position, x)\<close> always returns; the result is
  the original list with \<open>x\<close> placed at the normalised index (the size added to a
  negative position, then clamped to 0 from below and to the size from above), one
  element longer, the other elements in their order. A position beyond the end is
  \<open>append(x)\<close>; a position below \<open>-size\<close> is \<open>insert(0, x)\<close>.
\<close>

theorem insert_clamps:
  assumes "well_formed st this"
  shows "(\<exists>st'. DList_insert this position x st = Inr st' \<and>
            well_formed st' this \<and>
            elems st' this =
              spec_insert (spec_insert_index (DList_length this st) position) x (elems st this) \<and>
            DList_length this st' = DList_length this st + 1) \<and>
         (0 < k \<longrightarrow>
            DList_insert this (DList_length this st + k) x st = DList_append this x st) \<and>
         (position < - DList_length this st \<longrightarrow>
            DList_insert this position x st = DList_insert this 0 x st)"
proof -
  note at = well_formedD [OF assms]
  let ?as = "cells st this"
  have len: "DList_length this st = int (length ?as)" by (rule length_eq [OF at])
  define j where "j = spec_insert_index (int (length ?as)) position"
  from insert_spec [OF at, of position x] obtain st' where
    r: "DList_insert this position x st = Inr st'"
       "dlist_at st' this (spec_insert j (st_fresh st) ?as)"
       "contents st' (spec_insert j (st_fresh st) ?as) = spec_insert j x (contents st ?as)"
    unfolding j_def by blast
  have "length (spec_insert j (st_fresh st) ?as) = Suc (length ?as)"
    by (simp add: spec_insert_def)
  with r length_eq [OF r(2)] elems_eq [OF r(2)] well_formedI [OF r(2)] len
  have 1: "\<exists>st'. DList_insert this position x st = Inr st' \<and> well_formed st' this \<and>
      elems st' this =
        spec_insert (spec_insert_index (DList_length this st) position) x (elems st this) \<and>
      DList_length this st' = DList_length this st + 1"
    by (simp add: j_def elems_def)
  have 2: "DList_insert this (DList_length this st + k) x st = DList_append this x st"
    if "0 < k"
    using that len by (simp add: DList_insert_def DList_length_def Let_def)
  have 3: "DList_insert this position x st = DList_insert this 0 x st"
    if "position < - DList_length this st"
    using that len by (simp add: DList_insert_def DList_length_def Let_def)
  from 1 2 3 show ?thesis by blast
qed

theorem insert_clamps_witness:
  "well_formed ex_store 0 \<and>
   (\<exists>st'. DList_insert 0 1 15 ex_store = Inr st' \<and> elems st' 0 = [10, 15, 20, 30]) \<and>
   DList_insert 0 1000 40 ex_store = DList_append 0 40 ex_store \<and>
   DList_insert 0 (- 9999) 5 ex_store = DList_insert 0 0 5 ex_store"
  using insert_clamps [OF ex_store_wf(1), of 1 15 997]
    insert_clamps [OF ex_store_wf(1), of 1000 40 997]
    insert_clamps [OF ex_store_wf(1), of "- 9999" 5 1] ex_store_wf(1)
  by (simp add: ex_store_elems ex_store_length spec_insert_index_def spec_insert_def) blast

text \<open>
  C4. On a well-formed list \<open>pop(position)\<close>, with the size added to a negative
  position, removes and returns the element at that position when it lies in
  \<open>[0, size)\<close>, shortening the list by one; otherwise it returns the default value and
  the store is exactly as before. \<open>pop()\<close> is \<open>pop(-1)\<close>.
\<close>

theorem pop_in_or_out_of_range:
  assumes "well_formed st this"
  shows "(0 \<le> spec_pop_index (DList_length this st) position \<and>
          spec_pop_index (DList_length this st) position < DList_length this st \<longrightarrow>
            (\<exists>st'. DList_pop dflt this position st =
                Inr (elems st this ! nat (spec_pop_index (DList_length this st) position), st') \<and>
              well_formed st' this \<and>
              elems st' this =
                spec_delete (nat (spec_pop_index (DList_length this st) position))
                  (elems st this) \<and>
              DList_length this st' = DList_length this st - 1)) \<and>
         (\<not> (0 \<le> spec_pop_index (DList_length this st) position \<and>
             spec_pop_index (DList_length this st) position < DList_length this st) \<longrightarrow>
            DList_pop dflt this position st = Inr (dflt, st)) \<and>
         DList_pop_default dflt this st = DList_pop dflt this (- 1) st"
proof -
  note at = well_formedD [OF assms]
  let ?as = "cells st this"
  have len: "DList_length this st = int (length ?as)" by (rule length_eq [OF at])
  define p where "p = spec_pop_index (DList_length this st) position"
  have p: "p = (if position < 0 then position + int (length ?as) else position)"
    by (simp add: p_def spec_pop_index_def len)
  have 1: "\<exists>st'. DList_pop dflt this position st = Inr (elems st this ! nat p, st') \<and>
      well_formed st' this \<and> elems st' this = spec_delete (nat p) (elems st this) \<and>
      DList_length this st' = DList_length this st - 1"
    if "0 \<le> p \<and> p < DList_length this st"
  proof -
    from that len have rng: "0 \<le> p" "p < int (length ?as)" by simp_all
    from delete_spec_in_range [OF at rng [unfolded p], of dflt, folded p]
    obtain st' where
      r: "DList_delete dflt this position st = Inr (contents st ?as ! nat p, st')"
         "dlist_at st' this (spec_delete (nat p) ?as)"
         "contents st' (spec_delete (nat p) ?as) = spec_delete (nat p) (contents st ?as)"
      by blast
    from rng have "length (spec_delete (nat p) ?as) = length ?as - 1"
      by (simp add: spec_delete_def)
    with rng have "int (length (spec_delete (nat p) ?as)) = int (length ?as) - 1"
      by simp
    with r length_eq [OF r(2)] elems_eq [OF r(2)] well_formedI [OF r(2)] len
    show ?thesis by (simp add: DList_pop_def elems_def)
  qed
  have 2: "DList_pop dflt this position st = Inr (dflt, st)"
    if "\<not> (0 \<le> p \<and> p < DList_length this st)"
  proof -
    from that len have "p < 0 \<or> int (length ?as) \<le> p" by auto
    from delete_spec_out_of_range [OF at this [unfolded p], of dflt] show ?thesis
      by (simp add: DList_pop_def)
  qed
  have 3: "DList_pop_default dflt this st = DList_pop dflt this (- 1) st"
    by (simp add: DList_pop_default_def)
  from 1 2 3 show ?thesis unfolding p_def by blast
qed

theorem pop_in_or_out_of_range_witness:
  "well_formed ex_store 0 \<and>
   (\<exists>st'. DList_pop 0 0 (- 1) ex_store = Inr (30, st') \<and> elems st' 0 = [10, 20] \<and>
      DList_length 0 st' = 2) \<and>
   DList_pop 0 0 3 ex_store = Inr (0, ex_store) \<and>
   DList_pop 0 0 (- 4) ex_store = Inr (0, ex_store)"
  using pop_in_or_out_of_range [OF ex_store_wf(1), of "- 1" 0]
    pop_in_or_out_of_range [OF ex_store_wf(1), of 3 0]
    pop_in_or_out_of_range [OF ex_store_wf(1), of "- 4" 0] ex_store_wf(1)
  by (simp add: ex_store_elems ex_store_length spec_pop_index_def spec_delete_def) blast

section \<open>Removal by value, concatenation and copying\<close>

lemma ex_partial_store_cells: "cells ex_partial_store 0 = [0, 1, 2]"
  by (simp add: cells_def ex_partial_store_def numeral_3_eq_3)

lemma ex_partial_store_wf: "well_formed ex_partial_store 0"
  by (simp add: well_formed_def ex_partial_store_cells dlist_at_def dlist_inv_def)
    (simp add: ex_partial_store_def)

lemma ex_partial_store_elems: "elems ex_partial_store 0 = [Some 15, None, Some 25]"
  by (simp add: elems_def ex_partial_store_cells contents_def)
    (simp add: ex_partial_store_def)

text \<open>
  C5. On a well-formed list, with \<open>eq\<close> the comparison \<open>operator==\<close> of the element
  type: if some element compares equal to \<open>x\<close>, \<open>remove(x)\<close> returns, unlinks
  exactly the node at the lowest index \<open>j\<close> whose element compares equal to \<open>x\<close>, the
  size drops by one and the other elements keep their order; if no element compares
  equal to \<open>x\<close> it returns with the store unchanged. Where the comparison is equality of
  values, the result is the list with the first occurrence of \<open>x\<close> removed.
\<close>

theorem remove_first_occurrence:
  assumes "well_formed st this"
  shows "((\<exists>e\<in>set (elems st this). eq e x) \<longrightarrow>
            (\<exists>st' j. DList_remove eq this x st = Some (Inr st') \<and>
               j < length (elems st this) \<and> eq (elems st this ! j) x \<and>
               (\<forall>i<j. \<not> eq (elems st this ! i) x) \<and>
               well_formed st' this \<and>
               cells st' this = spec_delete j (cells st this) \<and>
               elems st' this = spec_delete j (elems st this) \<and>
               ((\<forall>a b. eq a b = (a = b)) \<longrightarrow> elems st' this = remove1 x (elems st this)) \<and>
               DList_length this st' = DList_length this st - 1)) \<and>
         ((\<forall>e\<in>set (elems st this). \<not> eq e x) \<longrightarrow>
            DList_remove eq this x st = Some (Inr st))"
proof -
  note at = well_formedD [OF assms]
  let ?as = "cells st this"
  have len: "DList_length this st = int (length ?as)" by (rule length_eq [OF at])
  have el: "elems st this = contents st ?as" by (simp add: elems_def)
  have 1: "\<exists>st' j. DList_remove eq this x st = Some (Inr st') \<and>
      j < length (elems st this) \<and> eq (elems st this ! j) x \<and>
      (\<forall>i<j. \<not> eq (elems st this ! i) x) \<and> well_formed st' this \<and>
      cells st' this = spec_delete j ?as \<and>
      elems st' this = spec_delete j (elems st this) \<and>
      ((\<forall>a b. eq a b = (a = b)) \<longrightarrow> elems st' this = remove1 x (elems st this)) \<and>
      DList_length this st' = DList_length this st - 1"
    if mem: "\<exists>e\<in>set (elems st this). eq e x"
  proof -
    from mem have "\<exists>e\<in>set (contents st ?as). eq e x" by (simp add: el)
    from remove_spec_present [where eq = eq and x = x, OF at this] obtain st' j where
      r: "DList_remove eq this x st = Some (Inr st')" "j < length ?as"
         "eq (contents st ?as ! j) x" "\<forall>i<j. \<not> eq (contents st ?as ! i) x"
         "dlist_at st' this (spec_delete j ?as)"
         "contents st' (spec_delete j ?as) = spec_delete j (contents st ?as)"
      by blast
    from r(2) have "int (length (spec_delete j ?as)) = int (length ?as) - 1"
      by (auto simp: spec_delete_def)
    with length_eq [OF r(5)] len
    have l': "DList_length this st' = DList_length this st - 1" by simp
    have c': "cells st' this = spec_delete j ?as" by (rule cells_eq [OF r(5)])
    have e': "elems st' this = spec_delete j (elems st this)"
      using elems_eq [OF r(5)] r(6) by (simp add: el)
    have r1: "elems st' this = remove1 x (elems st this)" if eq: "\<forall>a b. eq a b = (a = b)"
    proof -
      from r(2,3,4) eq have "j < length (elems st this)" "elems st this ! j = x"
        "\<forall>i<j. elems st this ! i \<noteq> x" by (simp_all add: el)
      from remove1_at_first_index [OF this] e' show ?thesis by simp
    qed
    from r(1,2,3,4) well_formedI [OF r(5)] l' c' e' r1 show ?thesis
      by (intro exI [of _ st'] exI [of _ j]) (simp add: el)
  qed
  have 2: "DList_remove eq this x st = Some (Inr st)"
    if "\<forall>e\<in>set (elems st this). \<not> eq e x"
    using remove_spec_absent [OF at, of eq x] that by (simp add: el)
  from 1 2 show ?thesis by blast
qed

theorem remove_first_occurrence_witness:
  "well_formed ex_store 0 \<and> well_formed ex_partial_store 0 \<and>
   (\<exists>st'. DList_remove (=) 0 20 ex_store = Some (Inr st') \<and> elems st' 0 = [10, 30] \<and>
      DList_length 0 st' = 2) \<and>
   DList_remove (=) 0 999 ex_store = Some (Inr ex_store) \<and>
   DList_remove ex_partial_eq 0 None ex_partial_store = Some (Inr ex_partial_store) \<and>
   (\<exists>st'. DList_remove ex_partial_eq 0 (Some 25) ex_partial_store = Some (Inr st') \<and>
      elems st' 0 = [Some 15, None])"
proof -
  from remove_first_occurrence [OF ex_store_wf(1), of "(=)" 20]
  have 1: "\<exists>st'. DList_remove (=) 0 20 ex_store = Some (Inr st') \<and> elems st' 0 = [10, 30] \<and>
      DList_length 0 st' = 2"
    by (simp add: ex_store_elems ex_store_length) blast
  from remove_first_occurrence [OF ex_store_wf(1), of "(=)" 999]
  have 2: "DList_remove (=) 0 999 ex_store = Some (Inr ex_store)"
    by (simp add: ex_store_elems)
  from remove_first_occurrence [OF ex_partial_store_wf, of ex_partial_eq None]
  have 3: "DList_remove ex_partial_eq 0 None ex_partial_store = Some (Inr ex_partial_store)"
    by (simp add: ex_partial_store_elems ex_partial_eq_def)
  have mem: "\<exists>e\<in>set (elems ex_partial_store 0). ex_partial_eq e (Some 25)"
    by (simp add: ex_partial_store_elems ex_partial_eq_def)
  from remove_first_occurrence [OF ex_partial_store_wf, of ex_partial_eq "Some 25"] mem
  obtain st' j where r0:
    "DList_remove ex_partial_eq 0 (Some 25) ex_partial_store = Some (Inr st')"
    "j < length (elems ex_partial_store 0)"
    "ex_partial_eq (elems ex_partial_store 0 ! j) (Some 25)"
    "elems st' 0 = spec_delete j (elems ex_partial_store 0)"
    by blast
  note r = r0 [unfolded ex_partial_store_elems]
  from r(2) have "j = 0 \<or> j = 1 \<or> j = 2" by auto
  with r(3) have "j = 2" by (auto simp: ex_partial_eq_def)
  with r(1,4) have 4: "\<exists>st'. DList_remove ex_partial_eq 0 (Some 25) ex_partial_store =
      Some (Inr st') \<and> elems st' 0 = [Some 15, None]"
    by (simp add: spec_delete_def)
  from 1 2 3 4 ex_store_wf(1) ex_partial_store_wf show ?thesis by blast
qed

text \<open>
  C6. For well-formed lists \<open>this\<close> and \<open>other\<close> (sharing no node when they are
  different objects) \<open>extend(other)\<close> returns and leaves \<open>this\<close> holding its former
  elements followed by the elements \<open>other\<close> had, in order. A different \<open>other\<close> is
  left with its nodes and elements as they were; for \<open>other\<close> the same object as
  \<open>this\<close> the result is the former contents twice, \<open>size\<close> new nodes being appended.
\<close>

theorem extend_appends_all:
  assumes "well_formed st this" and "well_formed st other"
    and "other \<noteq> this \<longrightarrow> separate st this other"
  shows "\<exists>st'. DList_extend this other st = Some (Inr st') \<and>
           well_formed st' this \<and>
           elems st' this = elems st this @ elems st other \<and>
           DList_length this st' = DList_length this st + DList_length other st \<and>
           (other \<noteq> this \<longrightarrow>
              well_formed st' other \<and> cells st' other = cells st other \<and>
              elems st' other = elems st other) \<and>
           (other = this \<longrightarrow>
              elems st' this = elems st this @ elems st this \<and>
              st_fresh st' = st_fresh st + length (elems st this))"
proof -
  note at = well_formedD [OF assms(1)] and ot = well_formedD [OF assms(2)]
  let ?as = "cells st this" and ?bs = "cells st other" and ?n = "st_fresh st"
  show ?thesis
  proof (cases "other = this")
    case True
    from extend_self_spec [OF at] obtain st' where
      r: "DList_extend this this st = Some (Inr st')"
         "dlist_at st' this (?as @ [?n..<?n + length ?as])"
         "contents st' (?as @ [?n..<?n + length ?as]) = contents st ?as @ contents st ?as"
         "st_fresh st' = ?n + length ?as"
      by blast
    from length_eq [OF r(2)] length_eq [OF at]
    have "DList_length this st' = DList_length this st + DList_length this st" by simp
    with True r elems_eq [OF r(2)] well_formedI [OF r(2)] show ?thesis
      by (intro exI [of _ st']) (simp add: elems_def)
  next
    case False
    with assms(3) have disj: "set ?as \<inter> set ?bs = {}" by (simp add: separate_def)
    from extend_other_spec [OF at ot False disj] obtain st' where
      r: "DList_extend this other st = Some (Inr st')"
         "dlist_at st' this (?as @ [?n..<?n + length ?bs])"
         "contents st' (?as @ [?n..<?n + length ?bs]) = contents st ?as @ contents st ?bs"
         "frame st this ?as st'"
      by blast
    from disj have disj': "set ?bs \<inter> set ?as = {}" by auto
    note o' = frame_other [OF r(4) ot False disj']
    from length_eq [OF r(2)] length_eq [OF at] length_eq [OF ot]
    have "DList_length this st' = DList_length this st + DList_length other st" by simp
    with False r elems_eq [OF r(2)] well_formedI [OF r(2)] well_formedI [OF o'(1)]
      cells_eq [OF o'(1)] elems_eq [OF o'(1)] o'(2)
    show ?thesis
      by (intro exI [of _ st']) (simp add: elems_def)
  qed
qed

lemma ex_store_separate: "separate ex_store 0 1"
  by (simp add: separate_def ex_store_cells ex_store_cells_Suc)

lemma ex_store_fresh: "st_fresh ex_store = 4"
  by (simp add: ex_store_def)

lemma ex_store_Suc: "elems ex_store (Suc 0) = [7]" "DList_length (Suc 0) ex_store = 1"
  using ex_store_elems(2) ex_store_length(2) by simp_all

theorem extend_appends_all_witness:
  "well_formed ex_store 0 \<and> well_formed ex_store 1 \<and> separate ex_store 0 1 \<and>
   (\<exists>st'. DList_extend 0 1 ex_store = Some (Inr st') \<and> elems st' 0 = [10, 20, 30, 7] \<and>
      elems st' 1 = [7]) \<and>
   (\<exists>st'. DList_extend 0 0 ex_store = Some (Inr st') \<and>
      elems st' 0 = [10, 20, 30, 10, 20, 30] \<and> st_fresh st' = 7)"
proof -
  have "(1::nat) \<noteq> 0 \<longrightarrow> separate ex_store 0 1" using ex_store_separate by simp
  from extend_appends_all [OF ex_store_wf(1) ex_store_wf(2) this]
  have 1: "\<exists>st'. DList_extend 0 1 ex_store = Some (Inr st') \<and> elems st' 0 = [10, 20, 30, 7] \<and>
      elems st' 1 = [7]"
    by (simp add: ex_store_elems ex_store_Suc) blast
  have "(0::nat) \<noteq> 0 \<longrightarrow> separate ex_store 0 0" by simp
  from extend_appends_all [OF ex_store_wf(1) ex_store_wf(1) this]
  have 2: "\<exists>st'. DList_extend 0 0 ex_store = Some (Inr st') \<and>
      elems st' 0 = [10, 20, 30, 10, 20, 30] \<and> st_fresh st' = 7"
    by (simp add: ex_store_elems ex_store_fresh) blast
  from 1 2 ex_store_wf ex_store_separate show ?thesis by blast
qed

lemma set_other_unchanged:
  assumes at: "dlist_at st l as" and ot: "dlist_at st l' bs" and ne: "l' \<noteq> l"
    and disj: "set bs \<inter> set as = {}"
    and rng: "- int (length as) \<le> position" "position < int (length as)"
  shows "\<exists>st'. DList_set l position v st = Inr st' \<and>
           elems st' l = (contents st as)[nat (spec_pop_index (int (length as)) position) := v] \<and>
           elems st' l' = contents st bs"
proof -
  from set_spec [OF at rng, of v] obtain st' where
    r: "DList_set l position v st = Inr st'" "dlist_at st' l as"
       "contents st' as =
          (contents st as)[nat (if position < 0 then position + int (length as) else position)
             := v]"
       "frame st l as st'"
    by blast
  note o' = frame_other [OF r(4) ot ne disj]
  from r elems_eq [OF r(2)] elems_eq [OF o'(1)] o'(2) show ?thesis
    by (simp add: spec_pop_index_def)
qed

lemma copy_independent:
  assumes src: "dlist_at st source bs" and ne: "this \<noteq> source"
  shows "\<exists>st'. DList_copy this source st = Some (Inr st') \<and>
           independent_copy st' this source (contents st bs)"
proof -
  let ?n = "st_fresh st"
  let ?news = "[?n..<?n + length bs]"
  let ?xs = "contents st bs"
  from copy_spec [OF src ne] obtain st' where
    r: "DList_copy this source st = Some (Inr st')" "dlist_at st' this ?news"
       "contents st' ?news = ?xs" "frame st this [] st'"
    by blast
  from ne have ne': "source \<noteq> this" by simp
  have "set bs \<inter> set [] = {}" by simp
  note s' = frame_other [OF r(4) src ne' this]
  have disj: "set ?news \<inter> set bs = {}" using dlist_atD(4) [OF src] by fastforce
  then have disj': "set bs \<inter> set ?news = {}" by auto
  have len: "length ?news = length ?xs" "length bs = length ?xs" by simp_all
  have sets: "(\<exists>st''. DList_set this position v st' = Inr st'' \<and>
        elems st'' this = ?xs[nat (spec_pop_index (int (length ?xs)) position) := v] \<and>
        elems st'' source = ?xs) \<and>
      (\<exists>st''. DList_set source position v st' = Inr st'' \<and>
        elems st'' source = ?xs[nat (spec_pop_index (int (length ?xs)) position) := v] \<and>
        elems st'' this = ?xs)"
    if rng: "- int (length ?xs) \<le> position \<and> position < int (length ?xs)" for position v
  proof -
    from rng have r1: "- int (length ?news) \<le> position" "position < int (length ?news)"
      and r2: "- int (length bs) \<le> position" "position < int (length bs)"
      by simp_all
    from set_other_unchanged [OF r(2) s'(1) ne' disj' r1, of v]
      set_other_unchanged [OF s'(1) r(2) ne disj r2, of v] r(3) s'(2)
    show ?thesis by simp
  qed
  have "independent_copy st' this source ?xs"
    unfolding independent_copy_def
    using well_formedI [OF r(2)] well_formedI [OF s'(1)] cells_eq [OF r(2)] cells_eq [OF s'(1)]
      disj length_eq [OF r(2)] length_eq [OF s'(1)] elems_eq [OF r(2)] elems_eq [OF s'(1)]
      r(3) s'(2) sets
    by (simp add: separate_def)
  with r(1) show ?thesis by blast
qed

text \<open>
  C7. For a well-formed \<open>source\<close> and a different list object \<open>this\<close>, the copy
  constructor and the assignment operator both return and leave \<open>this\<close> a list of the
  same length and elements as \<open>source\<close>, on nodes of its own: \<open>source\<close> is unchanged,
  and assigning to any element of either list afterwards does not change the other.
  Assigning a list to itself returns the store unchanged.
\<close>

theorem copy_semantics:
  assumes "well_formed st source" and "this \<noteq> source"
  shows "(\<exists>st'. DList_copy_ctor this source st = Some (Inr st') \<and>
            independent_copy st' this source (elems st source)) \<and>
         (\<exists>st'. DList_assign this source st = Some (Inr st') \<and>
            independent_copy st' this source (elems st source)) \<and>
         DList_assign source source st = Some (Inr st)"
proof -
  note src = well_formedD [OF assms(1)]
  from assms(2) have ne': "source \<noteq> this" by simp
  have 1: "\<exists>st'. DList_copy_ctor this source st = Some (Inr st') \<and>
      independent_copy st' this source (elems st source)"
    using copy_independent [OF src assms(2)] by (simp add: DList_copy_ctor_def elems_def)
  let ?st1 = "DList_clear this st"
  from clear_spec [of this st "[]"] have fr: "frame st this [] ?st1" by simp
  have "set (cells st source) \<inter> set [] = {}" by simp
  note s1 = frame_other [OF fr src ne' this]
  have 2: "\<exists>st'. DList_assign this source st = Some (Inr st') \<and>
      independent_copy st' this source (elems st source)"
    using copy_independent [OF s1(1) assms(2)] assms(2) s1(2)
    by (simp add: DList_assign_def elems_def)
  have 3: "DList_assign source source st = Some (Inr st)"
    by (simp add: DList_assign_def)
  from 1 2 3 show ?thesis by blast
qed

theorem copy_semantics_witness:
  "well_formed ex_store 0 \<and> (5::nat) \<noteq> 0 \<and>
   (\<exists>st'. DList_copy_ctor 5 0 ex_store = Some (Inr st') \<and>
      elems st' 5 = [10, 20, 30] \<and> elems st' 0 = [10, 20, 30] \<and>
      (\<exists>st''. DList_set 0 1 99 st' = Inr st'' \<and>
         elems st'' 0 = [10, 99, 30] \<and> elems st'' 5 = [10, 20, 30])) \<and>
   (\<exists>st'. DList_assign 1 0 ex_store = Some (Inr st') \<and>
      elems st' 1 = [10, 20, 30] \<and> elems st' 0 = [10, 20, 30]) \<and>
   DList_assign 0 0 ex_store = Some (Inr ex_store)"
proof -
  have ne: "(5::nat) \<noteq> 0" "(1::nat) \<noteq> 0" by simp_all
  from copy_semantics [OF ex_store_wf(1) ne(1)] obtain st' where
    c: "DList_copy_ctor 5 0 ex_store = Some (Inr st')"
       "independent_copy st' 5 0 [10, 20, 30]"
    by (auto simp: ex_store_elems)
  from c(2) have "\<exists>st''. DList_set 0 1 99 st' = Inr st'' \<and>
      elems st'' 0 = [10, 99, 30] \<and> elems st'' 5 = [10, 20, 30]"
    unfolding independent_copy_def
    by (elim conjE allE [of _ 1] allE [of _ 99]) (simp add: spec_pop_index_def)
  with c have 1: "\<exists>st'. DList_copy_ctor 5 0 ex_store = Some (Inr st') \<and>
      elems st' 5 = [10, 20, 30] \<and> elems st' 0 = [10, 20, 30] \<and>
      (\<exists>st''. DList_set 0 1 99 st' = Inr st'' \<and>
         elems st'' 0 = [10, 99, 30] \<and> elems st'' 5 = [10, 20, 30])"
    by (auto simp: independent_copy_def)
  from copy_semantics [OF ex_store_wf(1) ne(2)]
  have 2: "\<exists>st'. DList_assign 1 0 ex_store = Some (Inr st') \<and>
      elems st' 1 = [10, 20, 30] \<and> elems st' 0 = [10, 20, 30]"
    by (auto simp: ex_store_elems independent_copy_def)
  from copy_semantics [OF ex_store_wf(1) ne(1)]
  have 3: "DList_assign 0 0 ex_store = Some (Inr ex_store)" by simp
  from 1 2 3 ex_store_wf(1) show ?thesis by simp
qed

section \<open>Index resolution and search\<close>

text \<open>
  C9. On a well-formed list \<open>_find(position)\<close> always returns a pointer, and the
  pointer is null exactly when \<open>position \<ge> size\<close> or \<open>position < -size\<close>. For
  \<open>-size \<le> position < size\<close> it is a node of the chain, and both forms of
  \<open>operator[]\<close> reach that node's item without error. Outside this range the
  dereference in \<open>operator[]\<close> is a null dereference.
\<close>

theorem find_null_iff_out_of_range:
  assumes "well_formed st this"
  shows "(\<exists>r. DList_find this position st = Inr r) \<and>
         (DList_find this position st = Inr None \<longleftrightarrow>
            position \<ge> DList_length this st \<or> position < - DList_length this st) \<and>
         (- DList_length this st \<le> position \<and> position < DList_length this st \<longrightarrow>
            (\<exists>a nd. DList_find this position st = Inr (Some a) \<and>
               a \<in> set (cells st this) \<and> st_nodes st a = Some nd \<and>
               DList_get this position st = Inr (node_item nd) \<and>
               DList_ref this position st = Inr a \<and>
               (\<exists>st'. DList_set this position v st = Inr st'))) \<and>
         (\<not> (- DList_length this st \<le> position \<and> position < DList_length this st) \<longrightarrow>
            DList_get this position st = Inl NullDeref \<and>
            DList_ref this position st = Inl NullDeref \<and>
            DList_set this position v st = Inl NullDeref)"
proof -
  note at = well_formedD [OF assms]
  let ?as = "cells st this"
  have len: "DList_length this st = int (length ?as)" by (rule length_eq [OF at])
  note f = find_spec [OF at, of position]
  have 1: "\<exists>r. DList_find this position st = Inr r" using f by simp
  have 2: "DList_find this position st = Inr None \<longleftrightarrow>
      position \<ge> DList_length this st \<or> position < - DList_length this st"
    using f len by auto
  have 3: "\<exists>a nd. DList_find this position st = Inr (Some a) \<and>
      a \<in> set ?as \<and> st_nodes st a = Some nd \<and>
      DList_get this position st = Inr (node_item nd) \<and>
      DList_ref this position st = Inr a \<and>
      (\<exists>st'. DList_set this position v st = Inr st')"
    if rng: "- DList_length this st \<le> position \<and> position < DList_length this st"
  proof -
    define i where "i = nat (if position < 0 then position + int (length ?as) else position)"
    from rng len have i: "i < length ?as" by (auto simp: i_def)
    from f rng len have fnd: "DList_find this position st = Inr (Some (?as ! i))"
      by (auto simp: i_def add.commute)
    from i have mem: "?as ! i \<in> set ?as" by simp
    from dlist_atD(5) [OF at mem] obtain nd where nd: "st_nodes st (?as ! i) = Some nd"
      by blast
    from fnd nd mem show ?thesis
      by (simp add: DList_get_def DList_ref_def DList_set_def deref_def set_item_def)
  qed
  have 4: "DList_get this position st = Inl NullDeref \<and>
      DList_ref this position st = Inl NullDeref \<and>
      DList_set this position v st = Inl NullDeref"
    if "\<not> (- DList_length this st \<le> position \<and> position < DList_length this st)"
  proof -
    from that f len have "DList_find this position st = Inr None" by auto
    then show ?thesis
      by (simp add: DList_get_def DList_ref_def DList_set_def deref_def)
  qed
  from 1 2 3 4 show ?thesis by blast
qed

theorem find_null_iff_out_of_range_witness:
  "well_formed ex_store 0 \<and>
   DList_find 0 3 ex_store = Inr None \<and> DList_find 0 (- 4) ex_store = Inr None \<and>
   (\<exists>a. DList_find 0 (- 3) ex_store = Inr (Some a) \<and> DList_ref 0 (- 3) ex_store = Inr a) \<and>
   (\<exists>a. DList_find 0 2 ex_store = Inr (Some a) \<and> DList_ref 0 2 ex_store = Inr a) \<and>
   DList_get 0 3 ex_store = Inl NullDeref \<and> DList_set 0 (- 4) 1 ex_store = Inl NullDeref"
  using find_null_iff_out_of_range [OF ex_store_wf(1), of 3 1]
    find_null_iff_out_of_range [OF ex_store_wf(1), of "- 4" 1]
    find_null_iff_out_of_range [OF ex_store_wf(1), of "- 3" 1]
    find_null_iff_out_of_range [OF ex_store_wf(1), of 2 1] ex_store_wf(1)
  by (simp add: ex_store_length) blast

lemma index_loop_no_match:
  "dseg (st_nodes st) pv p cs lst None \<Longrightarrow>
   \<forall>a\<in>set cs. \<not> eq (node_item (the (st_nodes st a))) x \<Longrightarrow>
   index_loop eq x p idx st = Some (Inr (- 1))"
proof (induction cs arbitrary: pv p idx)
  case Nil
  then show ?case by (subst index_loop.simps) simp
next
  case (Cons c cs)
  from Cons.prems(1) obtain nd where nd: "p = Some c" "st_nodes st c = Some nd"
    "dseg (st_nodes st) (Some c) (node_next nd) cs lst None"
    by (auto split: option.splits)
  from Cons.prems(2) nd have ne: "\<not> eq (node_item nd) x" by auto
  from Cons.prems(2) have "\<forall>a\<in>set cs. \<not> eq (node_item (the (st_nodes st a))) x" by simp
  from Cons.IH [OF nd(3) this] nd ne show ?case
    by (subst index_loop.simps) simp
qed

lemma index_loop_match:
  "dseg (st_nodes st) pv p cs lst None \<Longrightarrow> j < length cs \<Longrightarrow>
   eq (node_item (the (st_nodes st (cs ! j)))) x \<Longrightarrow>
   \<forall>i<j. \<not> eq (node_item (the (st_nodes st (cs ! i)))) x \<Longrightarrow>
   index_loop eq x p idx st = Some (Inr (idx + of_nat j))"
proof (induction cs arbitrary: pv p j idx)
  case Nil
  then show ?case by simp
next
  case (Cons c cs)
  from Cons.prems(1) obtain nd where nd: "p = Some c" "st_nodes st c = Some nd"
    "dseg (st_nodes st) (Some c) (node_next nd) cs lst None"
    by (auto split: option.splits)
  show ?case
  proof (cases j)
    case 0
    with Cons.prems nd show ?thesis
      by (subst index_loop.simps) simp
  next
    case (Suc j')
    with Cons.prems(4) [rule_format, of 0] nd have ne: "\<not> eq (node_item nd) x" by simp
    from Suc Cons.prems have j': "j' < length cs"
      "eq (node_item (the (st_nodes st (cs ! j')))) x" by simp_all
    have "\<forall>i<j'. \<not> eq (node_item (the (st_nodes st (cs ! i)))) x"
    proof (intro allI impI)
      fix i assume "i < j'"
      with Suc Cons.prems(4) [rule_format, of "Suc i"]
      show "\<not> eq (node_item (the (st_nodes st (cs ! i)))) x" by simp
    qed
    from Cons.IH [OF nd(3) j' this, of "idx + 1"] nd ne Suc show ?thesis
      by (subst index_loop.simps) (simp add: add.assoc)
  qed
qed

lemma sint_small:
  fixes w :: "64 word"
  assumes "unat w < 2 ^ 63"
  shows "sint w = int (unat w)"
proof -
  have u: "uint w = int (unat w)" by (rule uint_nat)
  from assms have "int (unat w) < int (2 ^ 63)" by (simp only: of_nat_less_iff)
  then have "int (unat w) < 2 ^ 63" by simp
  moreover have "- (2 ^ 63) \<le> (0::int)" by simp
  then have "- (2 ^ 63) \<le> int (unat w)"
    by (rule order_trans) simp
  ultimately have "signed_take_bit 63 (int (unat w)) = int (unat w)"
    by (rule signed_take_bit_int_eq_self [rotated])
  then show ?thesis unfolding sint_uint u by simp
qed

text \<open>
  What \<open>index\<close> does when \<open>start\<close> is below \<open>2^63\<close>, so that its conversion to
  \<open>long\<close> keeps the value: it returns the first position at or after \<open>start\<close>
  whose element compares equal to \<open>x\<close>, and \<open>(size_t)-1\<close> when there is none (in
  particular for every \<open>start\<close> from \<open>size\<close> up to \<open>2^63 - 1\<close>).
\<close>

lemma index_small_start:
  assumes wf: "well_formed st this" and small: "unat start < 2 ^ 63"
  shows "(\<forall>p. unat start \<le> p \<and> p < length (elems st this) \<and> eq (elems st this ! p) x \<and>
              (\<forall>i. unat start \<le> i \<and> i < p \<longrightarrow> \<not> eq (elems st this ! i) x) \<longrightarrow>
              DList_index eq this x start st = Some (Inr (of_nat p))) \<and>
         ((\<forall>p. unat start \<le> p \<and> p < length (elems st this) \<longrightarrow> \<not> eq (elems st this ! p) x) \<longrightarrow>
              DList_index eq this x start st = Some (Inr (- 1)))"
proof -
  note at = well_formedD [OF wf]
  let ?as = "cells st this" and ?h = "st_nodes st"
  let ?l = "st_lists st this"
  define s where "s = unat start"
  have pos: "sint start = int s" using sint_small [OF small] by (simp add: s_def)
  have el: "elems st this = contents st ?as" by (simp add: elems_def)
  note f = find_spec [OF at, of "int s"]
  show ?thesis
  proof (cases "s < length ?as")
    case False
    with f have "DList_find this (sint start) st = Inr None" by (simp add: pos)
    then have "DList_index eq this x start st = Some (Inr (- 1))"
      by (simp add: DList_index_def) (subst index_loop.simps, simp)
    with False show ?thesis by (auto simp: el s_def)
  next
    case True
    with f have fnd: "DList_find this (sint start) st = Inr (Some (?as ! s))"
      by (simp add: pos)
    define cs where "cs = drop s ?as"
    from True have cs: "cs \<noteq> []" "hd cs = ?as ! s" "length cs = length ?as - s"
      by (simp_all add: cs_def hd_drop_conv_nth)
    have "dseg ?h None (dl_head ?l) (take s ?as @ cs) (dl_tail ?l) None"
      using dlist_atD(1) [OF at] by (simp add: cs_def)
    then obtain m r where seg: "dseg ?h m r cs (dl_tail ?l) None"
      unfolding dseg_append by blast
    from dseg_hd [OF seg] cs have r: "r = Some (?as ! s)" by simp
    have run: "DList_index eq this x start st = index_loop eq x r start st"
      using fnd r by (simp add: DList_index_def)
    have nth: "node_item (the (?h (cs ! j))) = elems st this ! (s + j)"
      if "j < length cs" for j
      using that cs(3) by (simp add: cs_def el contents_nth)
    have 1: "DList_index eq this x start st = Some (Inr (of_nat p))"
      if p: "s \<le> p" "p < length ?as" "eq (elems st this ! p) x"
        "\<forall>i. s \<le> i \<and> i < p \<longrightarrow> \<not> eq (elems st this ! i) x" for p
    proof -
      define j where "j = p - s"
      from p have j: "j < length cs" "s + j = p" by (simp_all add: j_def cs(3))
      have a: "eq (node_item (the (?h (cs ! j)))) x" using nth [OF j(1)] j(2) p(3) by simp
      have b: "\<forall>i<j. \<not> eq (node_item (the (?h (cs ! i)))) x"
      proof (intro allI impI)
        fix i assume i: "i < j"
        with j have "i < length cs" by simp
        from nth [OF this] p(4) [rule_format, of "s + i"] i j(2)
        show "\<not> eq (node_item (the (?h (cs ! i)))) x" by simp
      qed
      have "(of_nat p :: 64 word) = of_nat s + of_nat j"
        unfolding j(2) [symmetric] by simp
      moreover have "(of_nat s :: 64 word) = start"
        unfolding s_def by simp
      ultimately have "start + of_nat j = (of_nat p :: 64 word)" by simp
      with index_loop_match [where eq = eq and x = x, OF seg j(1) a b, of start] run
      show ?thesis by simp
    qed
    have 2: "DList_index eq this x start st = Some (Inr (- 1))"
      if np: "\<forall>p. s \<le> p \<and> p < length ?as \<longrightarrow> \<not> eq (elems st this ! p) x"
    proof -
      have "\<forall>a\<in>set cs. \<not> eq (node_item (the (?h a))) x"
      proof
        fix a assume "a \<in> set cs"
        then obtain j where j: "j < length cs" "cs ! j = a" by (auto simp: in_set_conv_nth)
        from nth [OF j(1)] np [rule_format, of "s + j"] j cs(3)
        show "\<not> eq (node_item (the (?h a))) x" by simp
      qed
      from index_loop_no_match [where eq = eq and x = x, OF seg this, of start] run
      show ?thesis by simp
    qed
    from 1 2 show ?thesis by (auto simp: s_def el)
  qed
qed

text \<open>
  C8. The claim asks, for every \<open>start\<close>, for the smallest position \<open>p\<close> with
  \<open>start \<le> p < size\<close> holding \<open>x\<close>, and for the sentinel \<open>(size_t)-1\<close> when there
  is none. The code at \<open>start = 2^64 - 3\<close> on the list \<open>[10, 20, 30]\<close>, searching
  \<open>10\<close>: \<open>_find(start)\<close> receives the \<open>long\<close> value \<open>-3\<close>, resolves it to the first
  node, and \<open>index\<close> returns \<open>start\<close> itself, which is neither a position of the
  list nor the sentinel. The elements are \<open>int\<close>, whose \<open>operator==\<close> is equality of
  values.
\<close>

theorem index_start_converted_negative:
  "elems ex_store 0 = [10, 20, 30] \<and>
   sint (18446744073709551613 :: 64 word) = - 3 \<and>
   DList_index (=) 0 10 18446744073709551613 ex_store = Some (Inr 18446744073709551613) \<and>
   (18446744073709551613 :: 64 word) \<noteq> - 1"
proof -
  have "DList_index (=) 0 10 (- 3) ex_store = Some (Inr (- 3))"
    apply (simp add: DList_index_def DList_find_def ex_store_def lock_def deref_def
        numeral_2_eq_2)
    apply (subst index_loop.simps)
    apply simp
    done
  moreover have "(- 3 :: 64 word) = 18446744073709551613" by simp
  ultimately show ?thesis by (simp add: ex_store_elems)
qed

text \<open>
  C10. The claim asks for the sentinel whenever \<open>start \<ge> length()\<close>. The code at
  \<open>start = 2^64 - 2\<close>, which is past the end of the list \<open>[10, 20, 30]\<close>, searching
  \<open>20\<close>: \<open>_find(start)\<close> receives the \<open>long\<close> value \<open>-2\<close>, resolves it to the second
  node, and \<open>index\<close> returns \<open>start\<close>, not the sentinel. The elements are \<open>int\<close>,
  whose \<open>operator==\<close> is equality of values.
\<close>

theorem index_start_past_end_not_sentinel:
  "DList_length 0 ex_store = 3 \<and>
   (3 :: 64 word) \<le> 18446744073709551614 \<and>
   DList_index (=) 0 20 18446744073709551614 ex_store = Some (Inr 18446744073709551614) \<and>
   (18446744073709551614 :: 64 word) \<noteq> - 1"
proof -
  have "DList_index (=) 0 20 (- 2) ex_store = Some (Inr (- 2))"
    apply (simp add: DList_index_def DList_find_def ex_store_def lock_def deref_def)
    apply (subst index_loop.simps)
    apply simp
    done
  moreover have "(- 2 :: 64 word) = 18446744073709551614" by simp
  ultimately show ?thesis by (simp add: ex_store_length)
qed

end
